theory Spec2Isabelle
  imports Main "HOL-Library.Word" "HOL-Library.Sublist"
begin

section \<open>Text: JavaScript strings\<close>

text \<open>
  A JavaScript string is a sequence of 16-bit code units.  Literals of the source that are
  plain ASCII are written \<open>ascii ''...''\<close>; the Chinese messages of the source are given
  by their code units.

  The relay and the browser exchange UTF-8 bytes (\<^verbatim>\<open>TextEncoder\<close>, \<^verbatim>\<open>TextDecoder\<close>).
  The embedding works on the decoded text: a chunk is the string that
  \<^verbatim>\<open>decoder.decode(value, { stream: true })\<close> returns for one read.  For ASCII text the
  chunks of text are the chunks of bytes; a chunk of bytes that ends with a newline ends
  every multi-byte sequence, so the decoder carries nothing over such a boundary.
\<close>

type_synonym jsstring = "16 word list"

definition ascii :: "string \<Rightarrow> jsstring" where
  "ascii s = map of_char s"

text \<open>\<^verbatim>\<open>s.split("\n")\<close>: never empty; the last segment is what follows the last newline.\<close>

fun split_newline :: "jsstring \<Rightarrow> jsstring list" where
  "split_newline [] = [[]]"
| "split_newline (c # cs) =
     (if c = 0x0A then [] # split_newline cs
      else (case split_newline cs of
              [] \<Rightarrow> [[c]]
            | l # ls \<Rightarrow> (c # l) # ls))"

text \<open>
  \<^verbatim>\<open>s.trim()\<close> strips the code units of WhiteSpace and LineTerminator
  (ECMA-262, 12.2 and 12.3) from both ends.
\<close>

definition is_js_space :: "16 word \<Rightarrow> bool" where
  "is_js_space c \<longleftrightarrow>
     c = 0x09 \<or> c = 0x0A \<or> c = 0x0B \<or> c = 0x0C \<or> c = 0x0D \<or> c = 0x20 \<or> c = 0xA0 \<or>
     c = 0x1680 \<or> (0x2000 \<le> c \<and> c \<le> 0x200A) \<or> c = 0x2028 \<or> c = 0x2029 \<or>
     c = 0x202F \<or> c = 0x205F \<or> c = 0x3000 \<or> c = 0xFEFF"

definition trim :: "jsstring \<Rightarrow> jsstring" where
  "trim s = rev (dropWhile is_js_space (rev (dropWhile is_js_space s)))"

text \<open>\<^verbatim>\<open>l.startsWith("data:")\<close> and \<^verbatim>\<open>line.slice(5)\<close>.\<close>

definition startsWith :: "jsstring \<Rightarrow> jsstring \<Rightarrow> bool" where
  "startsWith l p \<longleftrightarrow> take (length p) l = p"

definition slice_from :: "nat \<Rightarrow> jsstring \<Rightarrow> jsstring" where
  "slice_from n l = drop n l"

text \<open>\<^verbatim>\<open>parts.join(sep)\<close>.\<close>

fun join :: "jsstring \<Rightarrow> jsstring list \<Rightarrow> jsstring" where
  "join sep [] = []"
| "join sep [x] = x"
| "join sep (x # y # ys) = x @ sep @ join sep (y # ys)"

text \<open>
  Surrogates.  \<^verbatim>\<open>TextEncoder.encode\<close> first replaces every surrogate that is not part
  of a pair by U+FFFD; the UTF-8 bytes of the result decode back to it.  So text written by
  the relay reaches the page unchanged when it is \<open>well_formed\<close>.
\<close>

definition is_high_surrogate :: "16 word \<Rightarrow> bool" where
  "is_high_surrogate c \<longleftrightarrow> 0xD800 \<le> c \<and> c \<le> 0xDBFF"

definition is_low_surrogate :: "16 word \<Rightarrow> bool" where
  "is_low_surrogate c \<longleftrightarrow> 0xDC00 \<le> c \<and> c \<le> 0xDFFF"

definition is_surrogate :: "16 word \<Rightarrow> bool" where
  "is_surrogate c \<longleftrightarrow> is_high_surrogate c \<or> is_low_surrogate c"

fun to_USVString :: "jsstring \<Rightarrow> jsstring" where
  "to_USVString [] = []"
| "to_USVString [c] = [if is_surrogate c then 0xFFFD else c]"
| "to_USVString (c # d # cs) =
     (if is_high_surrogate c \<and> is_low_surrogate d then c # d # to_USVString cs
      else (if is_surrogate c then 0xFFFD else c) # to_USVString (d # cs))"

fun well_formed :: "jsstring \<Rightarrow> bool" where
  "well_formed [] = True"
| "well_formed [c] = (\<not> is_surrogate c)"
| "well_formed (c # d # cs) =
     (if is_high_surrogate c \<and> is_low_surrogate d then well_formed cs
      else \<not> is_surrogate c \<and> well_formed (d # cs))"


section \<open>JSON values, \<^verbatim>\<open>JSON.parse\<close> and \<^verbatim>\<open>JSON.stringify\<close>\<close>

text \<open>
  The values \<^verbatim>\<open>JSON.parse\<close> can return.  An object is the list of its own properties in
  creation order, every key once.  A number is kept as the token that was parsed: its
  IEEE-754 value is not computed, so \<open>stringify\<close> gives the token back where JavaScript
  prints the double's shortest decimal, and a token that underflows to zero counts as
  non-zero.  The backend sends strings in \<^verbatim>\<open>thinking\<close> and \<^verbatim>\<open>content\<close> and a boolean in
  \<^verbatim>\<open>done\<close>; only where it sent a number would the embedding differ from JavaScript.
\<close>

datatype json =
    JNull
  | JBool bool
  | JNum jsstring
  | JStr jsstring
  | JArr "json list"
  | JObj "(jsstring \<times> json) list"

datatype js_error = SyntaxError | TypeError

subsection \<open>\<^verbatim>\<open>JSON.parse\<close> (ECMA-404 grammar)\<close>

definition is_json_ws :: "16 word \<Rightarrow> bool" where
  "is_json_ws c \<longleftrightarrow> c = 0x20 \<or> c = 0x09 \<or> c = 0x0A \<or> c = 0x0D"

definition skip_ws :: "jsstring \<Rightarrow> jsstring" where
  "skip_ws s = dropWhile is_json_ws s"

definition is_digit :: "16 word \<Rightarrow> bool" where
  "is_digit c \<longleftrightarrow> 0x30 \<le> c \<and> c \<le> 0x39"

definition hexval :: "16 word \<Rightarrow> 16 word option" where
  "hexval c =
     (if 0x30 \<le> c \<and> c \<le> 0x39 then Some (c - 0x30)
      else if 0x61 \<le> c \<and> c \<le> 0x66 then Some (c - 0x61 + 10)
      else if 0x41 \<le> c \<and> c \<le> 0x46 then Some (c - 0x41 + 10)
      else None)"

text \<open>The character after a backslash: \<^verbatim>\<open>" \ / b f n r t\<close>.\<close>

definition unescape :: "16 word \<Rightarrow> 16 word option" where
  "unescape e =
     (if e = 0x22 then Some 0x22
      else if e = 0x5C then Some 0x5C
      else if e = 0x2F then Some 0x2F
      else if e = 0x62 then Some 0x08
      else if e = 0x66 then Some 0x0C
      else if e = 0x6E then Some 0x0A
      else if e = 0x72 then Some 0x0D
      else if e = 0x74 then Some 0x09
      else None)"

definition push :: "16 word \<Rightarrow> (jsstring \<times> jsstring) option \<Rightarrow> (jsstring \<times> jsstring) option" where
  "push c r = (case r of None \<Rightarrow> None | Some (s, rest) \<Rightarrow> Some (c # s, rest))"

text \<open>
  The characters of a string token, after its opening quote: the string's value and the
  text after the closing quote.
\<close>

fun parse_chars :: "jsstring \<Rightarrow> (jsstring \<times> jsstring) option" where
  "parse_chars [] = None"
| "parse_chars (c # cs) =
     (if c = 0x22 then Some ([], cs)
      else if c = 0x5C then
        (case cs of
           [] \<Rightarrow> None
         | e # es \<Rightarrow>
             if e = 0x75 then
               (case es of
                  h1 # h2 # h3 # h4 # rest \<Rightarrow>
                    (case (hexval h1, hexval h2, hexval h3, hexval h4) of
                       (Some a, Some b, Some c', Some d) \<Rightarrow>
                         push (((a * 16 + b) * 16 + c') * 16 + d) (parse_chars rest)
                     | _ \<Rightarrow> None)
                | _ \<Rightarrow> None)
             else
               (case unescape e of
                  None \<Rightarrow> None
                | Some u \<Rightarrow> push u (parse_chars es)))
      else if c < 0x20 then None
      else push c (parse_chars cs))"

text \<open>A number token: \<^verbatim>\<open>-? (0 | [1-9][0-9]*) (. [0-9]+)? ([eE] [+-]? [0-9]+)?\<close>.\<close>

definition parse_int :: "jsstring \<Rightarrow> (jsstring \<times> jsstring) option" where
  "parse_int s =
     (case s of
        [] \<Rightarrow> None
      | d # ds \<Rightarrow>
          if d = 0x30 then Some ([d], ds)
          else if is_digit d then Some (d # takeWhile is_digit ds, dropWhile is_digit ds)
          else None)"

definition parse_frac :: "jsstring \<Rightarrow> (jsstring \<times> jsstring) option" where
  "parse_frac s =
     (case s of
        [] \<Rightarrow> Some ([], s)
      | p # ds \<Rightarrow>
          if p = 0x2E then
            (if takeWhile is_digit ds = [] then None
             else Some (p # takeWhile is_digit ds, dropWhile is_digit ds))
          else Some ([], s))"

definition parse_exp :: "jsstring \<Rightarrow> (jsstring \<times> jsstring) option" where
  "parse_exp s =
     (case s of
        [] \<Rightarrow> Some ([], s)
      | e # es \<Rightarrow>
          if e = 0x65 \<or> e = 0x45 then
            (let (sign, ds) =
                   (case es of
                      [] \<Rightarrow> ([], es)
                    | g # gs \<Rightarrow> if g = 0x2B \<or> g = 0x2D then ([g], gs) else ([], es))
             in if takeWhile is_digit ds = [] then None
                else Some (e # sign @ takeWhile is_digit ds, dropWhile is_digit ds))
          else Some ([], s))"

definition parse_number :: "jsstring \<Rightarrow> (jsstring \<times> jsstring) option" where
  "parse_number s =
     (let (sign, s1) =
            (case s of [] \<Rightarrow> ([], s) | c # cs \<Rightarrow> if c = 0x2D then ([c], cs) else ([], s))
      in case parse_int s1 of
           None \<Rightarrow> None
         | Some (i, s2) \<Rightarrow>
             (case parse_frac s2 of
                None \<Rightarrow> None
              | Some (f, s3) \<Rightarrow>
                  (case parse_exp s3 of
                     None \<Rightarrow> None
                   | Some (e, s4) \<Rightarrow> Some (sign @ i @ f @ e, s4))))"

text \<open>Creating a property: a key that is there already keeps its place and takes the new value.\<close>

fun obj_set :: "(jsstring \<times> json) list \<Rightarrow> jsstring \<Rightarrow> json \<Rightarrow> (jsstring \<times> json) list" where
  "obj_set [] k v = [(k, v)]"
| "obj_set ((k', v') # kvs) k v = (if k' = k then (k, v) # kvs else (k', v') # obj_set kvs k v)"

text \<open>
  A value, the elements of an array after its first bracket, the members of an object after
  its first brace.  Each returns what it parsed and the remaining text.  The tests
  \<open>length r < length s\<close> are what makes the recursion well-founded; they hold whenever
  they are reached, since a value is never empty (\<open>parser_consumes\<close> below).
\<close>

function parse_value :: "jsstring \<Rightarrow> (json \<times> jsstring) option"
  and parse_elements :: "json list \<Rightarrow> jsstring \<Rightarrow> (json \<times> jsstring) option"
  and parse_members :: "(jsstring \<times> json) list \<Rightarrow> jsstring \<Rightarrow> (json \<times> jsstring) option"
where
  "parse_value s =
     (case skip_ws s of
        [] \<Rightarrow> None
      | c # cs \<Rightarrow>
          if c = 0x7B then
            (case skip_ws cs of
               [] \<Rightarrow> None
             | d # ds \<Rightarrow> if d = 0x7D then Some (JObj [], ds) else parse_members [] cs)
          else if c = 0x5B then
            (case skip_ws cs of
               [] \<Rightarrow> None
             | d # ds \<Rightarrow> if d = 0x5D then Some (JArr [], ds) else parse_elements [] cs)
          else if c = 0x22 then
            (case parse_chars cs of None \<Rightarrow> None | Some (str, r) \<Rightarrow> Some (JStr str, r))
          else if take 4 (c # cs) = ascii ''true'' then Some (JBool True, drop 4 (c # cs))
          else if take 5 (c # cs) = ascii ''false'' then Some (JBool False, drop 5 (c # cs))
          else if take 4 (c # cs) = ascii ''null'' then Some (JNull, drop 4 (c # cs))
          else
            (case parse_number (c # cs) of None \<Rightarrow> None | Some (n, r) \<Rightarrow> Some (JNum n, r)))"
| "parse_elements acc s =
     (case parse_value s of
        None \<Rightarrow> None
      | Some (v, r) \<Rightarrow>
          if length r < length s then
            (case skip_ws r of
               [] \<Rightarrow> None
             | c # r' \<Rightarrow>
                 if c = 0x2C then parse_elements (acc @ [v]) r'
                 else if c = 0x5D then Some (JArr (acc @ [v]), r')
                 else None)
          else None)"
| "parse_members acc s =
     (case skip_ws s of
        [] \<Rightarrow> None
      | q # cs \<Rightarrow>
          if q = 0x22 then
            (case parse_chars cs of
               None \<Rightarrow> None
             | Some (k, r) \<Rightarrow>
                 (case skip_ws r of
                    [] \<Rightarrow> None
                  | c # r2 \<Rightarrow>
                      if c = 0x3A then
                        (case parse_value r2 of
                           None \<Rightarrow> None
                         | Some (v, r3) \<Rightarrow>
                             if length r3 < length r2 then
                               (case skip_ws r3 of
                                  [] \<Rightarrow> None
                                | c3 # r4 \<Rightarrow>
                                    if c3 = 0x2C then parse_members (obj_set acc k v) r4
                                    else if c3 = 0x7D then Some (JObj (obj_set acc k v), r4)
                                    else None)
                             else None)
                      else None))
          else None)"
  by pat_completeness auto
termination
proof -
  have chars: "parse_chars s = Some (x, r) \<Longrightarrow> length r < length s" for s x r
  proof (induction s arbitrary: x r rule: parse_chars.induct)
    case 1
    then show ?case by simp
  next
    case (2 c cs)
    then show ?case
      by (fastforce simp: push_def split: if_splits list.splits option.splits)
  qed
  have ws: "skip_ws s = c # cs \<Longrightarrow> length cs < length s" for s c cs
    using length_dropWhile_le [of is_json_ws s] by (simp add: skip_ws_def)
  show ?thesis
    by (relation "measure (\<lambda>x. case x of
            Inl s \<Rightarrow> 2 * length s
          | Inr (Inl (acc, s)) \<Rightarrow> 2 * length s + 1
          | Inr (Inr (acc, s)) \<Rightarrow> 2 * length s + 1)")
       (auto dest!: ws chars)
qed

text \<open>\<^verbatim>\<open>JSON.parse(text)\<close>: one value, white space around it, nothing else; or a SyntaxError.\<close>

definition JSON_parse :: "jsstring \<Rightarrow> js_error + json" where
  "JSON_parse text =
     (case parse_value text of
        None \<Rightarrow> Inl SyntaxError
      | Some (v, r) \<Rightarrow> if skip_ws r = [] then Inr v else Inl SyntaxError)"

subsection \<open>\<^verbatim>\<open>JSON.stringify\<close>\<close>

definition hexdigit :: "16 word \<Rightarrow> 16 word" where
  "hexdigit n = (if n < 10 then 0x30 + n else 0x61 + (n - 10))"

definition hex4 :: "16 word \<Rightarrow> jsstring" where
  "hex4 c =
     [hexdigit (c div 0x1000), hexdigit (c div 0x100 mod 0x10),
      hexdigit (c div 0x10 mod 0x10), hexdigit (c mod 0x10)]"

text \<open>
  QuoteJSONString (ECMA-262, 25.5.2.3), one code point that is not a surrogate pair: the
  two-character escapes, \<^verbatim>\<open>\uXXXX\<close> for the other control characters and for a lone
  surrogate, the code unit itself otherwise.
\<close>

definition quote_unit :: "16 word \<Rightarrow> jsstring" where
  "quote_unit c =
     (if c = 0x08 then [0x5C, 0x62]
      else if c = 0x09 then [0x5C, 0x74]
      else if c = 0x0A then [0x5C, 0x6E]
      else if c = 0x0C then [0x5C, 0x66]
      else if c = 0x0D then [0x5C, 0x72]
      else if c = 0x22 then [0x5C, 0x22]
      else if c = 0x5C then [0x5C, 0x5C]
      else if c < 0x20 \<or> is_high_surrogate c \<or> is_low_surrogate c then [0x5C, 0x75] @ hex4 c
      else [c])"

fun quote_chars :: "jsstring \<Rightarrow> jsstring" where
  "quote_chars [] = []"
| "quote_chars [c] = quote_unit c"
| "quote_chars (c # d # cs) =
     (if is_high_surrogate c \<and> is_low_surrogate d then c # d # quote_chars cs
      else quote_unit c @ quote_chars (d # cs))"

definition quote :: "jsstring \<Rightarrow> jsstring" where
  "quote s = [0x22] @ quote_chars s @ [0x22]"

text \<open>
  The order in which an object's own properties are enumerated: array indices (canonical
  decimal numerals up to \<open>2\<^sup>3\<^sup>2 - 2\<close>) ascending, then the other keys in creation order.
\<close>

definition index_value :: "jsstring \<Rightarrow> int" where
  "index_value k = foldl (\<lambda>n c. 10 * n + uint (c - 0x30)) 0 k"

definition is_array_index :: "jsstring \<Rightarrow> bool" where
  "is_array_index k \<longleftrightarrow>
     k \<noteq> [] \<and> list_all is_digit k \<and> (k = [0x30] \<or> hd k \<noteq> 0x30) \<and> index_value k \<le> 4294967294"

definition own_properties :: "(jsstring \<times> json) list \<Rightarrow> (jsstring \<times> json) list" where
  "own_properties kvs =
     sort_key (\<lambda>kv. index_value (fst kv)) (filter (\<lambda>kv. is_array_index (fst kv)) kvs) @
     filter (\<lambda>kv. \<not> is_array_index (fst kv)) kvs"

function stringify :: "json \<Rightarrow> jsstring" where
  "stringify JNull = ascii ''null''"
| "stringify (JBool b) = (if b then ascii ''true'' else ascii ''false'')"
| "stringify (JNum n) = n"
| "stringify (JStr s) = quote s"
| "stringify (JArr vs) = [0x5B] @ join [0x2C] (map stringify vs) @ [0x5D]"
| "stringify (JObj kvs) =
     [0x7B] @
     join [0x2C] (map (\<lambda>kv. quote (fst kv) @ [0x3A] @ stringify (snd kv)) (own_properties kvs)) @
     [0x7D]"
  by pat_completeness auto
termination
proof (relation "measure size", goal_cases)
  case 1
  then show ?case by simp
next
  case (2 vs v)
  then have "size v \<le> size_list size vs"
    by (rule size_list_estimation') simp
  then show ?case by simp
next
  case (3 kvs kv)
  then have "kv \<in> set kvs" by (auto simp: own_properties_def)
  then have "size_prod (\<lambda>_. 0) size kv \<le> size_list (size_prod (\<lambda>_. 0) size) kvs"
    by (rule size_list_estimation') simp
  then show ?case by (cases kv) simp
qed

text \<open>
  An object literal such as \<^verbatim>\<open>{ thinking, content }\<close>: a property whose value is
  \<^verbatim>\<open>undefined\<close> (here \<open>None\<close>) is left out by \<^verbatim>\<open>JSON.stringify\<close>.
\<close>

definition object_literal :: "(jsstring \<times> json option) list \<Rightarrow> json" where
  "object_literal props = JObj (List.map_filter (\<lambda>(k, v). map_option (Pair k) v) props)"


section \<open>JavaScript values at work: truthiness, property reads, string concatenation\<close>

text \<open>A value that may be \<^verbatim>\<open>undefined\<close> is a \<open>json option\<close>.\<close>

definition number_is_zero :: "jsstring \<Rightarrow> bool" where
  "number_is_zero n \<longleftrightarrow>
     list_all (\<lambda>c. c = 0x30 \<or> c = 0x2D \<or> c = 0x2E) (takeWhile (\<lambda>c. c \<noteq> 0x65 \<and> c \<noteq> 0x45) n)"

fun truthy :: "json \<Rightarrow> bool" where
  "truthy JNull = False"
| "truthy (JBool b) = b"
| "truthy (JNum n) = (\<not> number_is_zero n)"
| "truthy (JStr s) = (s \<noteq> [])"
| "truthy (JArr vs) = True"
| "truthy (JObj kvs) = True"

definition truthy_opt :: "json option \<Rightarrow> bool" where
  "truthy_opt v = (case v of None \<Rightarrow> False | Some x \<Rightarrow> truthy x)"

text \<open>
  \<^verbatim>\<open>v.k\<close> for the property names the source reads (\<^verbatim>\<open>message\<close>, \<^verbatim>\<open>thinking\<close>,
  \<^verbatim>\<open>content\<close>, \<^verbatim>\<open>done\<close>, \<^verbatim>\<open>messages\<close>, \<^verbatim>\<open>model\<close>; none of them is a property
  of a built-in prototype): a TypeError on \<^verbatim>\<open>null\<close>, the own property of an object,
  \<^verbatim>\<open>undefined\<close> otherwise.
\<close>

definition get_prop :: "json \<Rightarrow> jsstring \<Rightarrow> js_error + json option" where
  "get_prop v k =
     (case v of
        JNull \<Rightarrow> Inl TypeError
      | JObj kvs \<Rightarrow> Inr (map_of kvs k)
      | _ \<Rightarrow> Inr None)"


section \<open>The relay: \<^verbatim>\<open>POST /api/chat\<close> (route.ts)\<close>

subsection \<open>The stream the relay writes\<close>

text \<open>\<^verbatim>\<open>json.message || {}\<close>\<close>

definition or_empty_object :: "json option \<Rightarrow> json" where
  "or_empty_object v =
     (case v of
        None \<Rightarrow> JObj []
      | Some x \<Rightarrow> if truthy x then x else JObj [])"

text \<open>
  The template literal of the source, \<^verbatim>\<open>data: ${JSON.stringify({ thinking, content })}\n\n\<close>,
  and the final event.
\<close>

definition sse_data :: "json option \<Rightarrow> json option \<Rightarrow> jsstring" where
  "sse_data thinking content =
     ascii ''data: '' @
     stringify (object_literal [(ascii ''thinking'', thinking), (ascii ''content'', content)]) @
     ascii ''\<newline>\<newline>''"

definition sse_done :: jsstring where
  "sse_done = ascii ''data: [DONE]\<newline>\<newline>''"

text \<open>\<^verbatim>\<open>if (thinking || content) controller.enqueue(encoder.encode(sseData))\<close>\<close>

definition enqueue_data :: "json option \<Rightarrow> json option \<Rightarrow> jsstring list" where
  "enqueue_data thinking content =
     (if truthy_opt thinking \<or> truthy_opt content then [sse_data thinking content] else [])"

text \<open>
  The body of \<^verbatim>\<open>for (const line of lines)\<close>: the strings it passes to
  \<^verbatim>\<open>controller.enqueue\<close>, in order.  Whatever the \<^verbatim>\<open>try\<close> block throws is caught and
  dropped; what was enqueued before stays.
\<close>

definition relay_line :: "jsstring \<Rightarrow> jsstring list" where
  "relay_line line =
     (if trim line = [] then []
      else
        (case JSON_parse line of
           Inl e \<Rightarrow> []
         | Inr json \<Rightarrow>
             (case get_prop json (ascii ''message'') of
                Inl e \<Rightarrow> []
              | Inr message \<Rightarrow>
                  (case get_prop (or_empty_object message) (ascii ''thinking'') of
                     Inl e \<Rightarrow> []
                   | Inr thinking \<Rightarrow>
                       (case get_prop (or_empty_object message) (ascii ''content'') of
                          Inl e \<Rightarrow> []
                        | Inr content \<Rightarrow>
                            enqueue_data thinking content @
                            (case get_prop json (ascii ''done'') of
                               Inl e \<Rightarrow> []
                             | Inr done \<Rightarrow> if truthy_opt done then [sse_done] else []))))))"

fun relay_lines :: "jsstring list \<Rightarrow> jsstring list" where
  "relay_lines [] = []"
| "relay_lines (line # lines) = relay_line line @ relay_lines lines"

text \<open>
  What \<^verbatim>\<open>reader.read()\<close> gives: a chunk, or a rejection; the end of the list is
  \<^verbatim>\<open>done\<close>.  The \<^verbatim>\<open>while (true)\<close> loop of \<^verbatim>\<open>start(controller)\<close> splits every chunk on
  its own: nothing of a chunk is kept for the next one.  A rejected read leaves the loop
  through the \<^verbatim>\<open>finally\<close> block, which closes the stream after what was enqueued; there
  is no \<^verbatim>\<open>catch\<close>, so the promise of \<^verbatim>\<open>start\<close> then rejects (\<open>failed\<close>).  The browser is
  taken to stay connected, so that \<^verbatim>\<open>controller.enqueue\<close> does not throw.
\<close>

datatype read = Chunk jsstring | ReadError

record sse_stream =
  enqueued :: "jsstring list"
  failed :: bool

fun start :: "read list \<Rightarrow> sse_stream" where
  "start [] = \<lparr>enqueued = [], failed = False\<rparr>"
| "start (Chunk v # reads) =
     (let s = start reads in s\<lparr>enqueued := relay_lines (split_newline v) @ enqueued s\<rparr>)"
| "start (ReadError # reads) = \<lparr>enqueued = [], failed = True\<rparr>"

text \<open>
  What the consumer of the stream gets.  A stream whose \<^verbatim>\<open>start\<close> promise rejects is
  errored, and the events still in its queue are discarded, unless \<^verbatim>\<open>controller.close()\<close>
  found the queue empty and closed it for good: \<open>taken\<close> is the number of events the
  consumer had read when the failing read rejected.
\<close>

datatype ending = Closed | Errored

definition received :: "nat \<Rightarrow> sse_stream \<Rightarrow> jsstring list \<times> ending" where
  "received taken s =
     (if failed s \<and> taken < length (enqueued s) then (take taken (enqueued s), Errored)
      else (enqueued s, Closed))"


subsection \<open>The handler\<close>

definition OLLAMA_URL :: string where
  "OLLAMA_URL = ''http://localhost:11434/api/chat''"

definition MODEL :: jsstring where
  "MODEL = ascii ''qwen3:14b''"

text \<open>The two error messages of the handler, as code units.\<close>

definition ollama_failed :: jsstring where
  "ollama_failed = ascii ''Ollama '' @ [0x8FDE, 0x63A5, 0x5931, 0x8D25]"

definition internal_error :: jsstring where
  "internal_error = [0x670D, 0x52A1, 0x5668, 0x5185, 0x90E8, 0x9519, 0x8BEF]"

datatype body = Json_text jsstring | Event_stream sse_stream

record response =
  status :: nat
  headers :: "(string \<times> string) list"
  body :: body

definition Response_json :: "json \<Rightarrow> nat \<Rightarrow> response" where
  "Response_json data code =
     \<lparr>status = code, headers = [(''Content-Type'', ''application/json'')],
      body = Json_text (stringify data)\<rparr>"

definition new_Response :: "sse_stream \<Rightarrow> (string \<times> string) list \<Rightarrow> response" where
  "new_Response stream hs = \<lparr>status = 200, headers = hs, body = Event_stream stream\<rparr>"

text \<open>
  What \<^verbatim>\<open>await fetch(OLLAMA_URL, ...)\<close> gives for the request body it is sent: it throws
  (no connection), or a response with its \<^verbatim>\<open>ok\<close> flag and its \<^verbatim>\<open>body\<close>, the reads of
  the backend's stream.
\<close>

datatype ollama = Fetch_throws | Fetch_response bool "read list option"

text \<open>
  \<^verbatim>\<open>const { messages, model = MODEL } = await request.json()\<close>: the body must parse and
  must not be \<^verbatim>\<open>null\<close>; the default stands in for a \<^verbatim>\<open>model\<close> that is
  \<^verbatim>\<open>undefined\<close>.
\<close>

definition destructure_request :: "jsstring \<Rightarrow> js_error + (json option \<times> json)" where
  "destructure_request text =
     (case JSON_parse text of
        Inl e \<Rightarrow> Inl e
      | Inr json \<Rightarrow>
          (case get_prop json (ascii ''messages'') of
             Inl e \<Rightarrow> Inl e
           | Inr messages \<Rightarrow>
               (case get_prop json (ascii ''model'') of
                  Inl e \<Rightarrow> Inl e
                | Inr None \<Rightarrow> Inr (messages, JStr MODEL)
                | Inr (Some model) \<Rightarrow> Inr (messages, model))))"

definition ollama_request :: "json option \<Rightarrow> json \<Rightarrow> jsstring" where
  "ollama_request messages model =
     stringify (object_literal
       [(ascii ''model'', Some model), (ascii ''messages'', messages),
        (ascii ''stream'', Some (JBool True))])"

text \<open>
  The handler.  Everything up to the \<^verbatim>\<open>return\<close> of the streaming response is inside
  \<^verbatim>\<open>try\<close>; the \<^verbatim>\<open>catch\<close> block answers with the internal-error response.
\<close>

definition POST :: "jsstring \<Rightarrow> (jsstring \<Rightarrow> ollama) \<Rightarrow> response" where
  "POST request_text fetch =
     (case destructure_request request_text of
        Inl e \<Rightarrow> Response_json (JObj [(ascii ''error'', JStr internal_error)]) 500
      | Inr (messages, model) \<Rightarrow>
          (case fetch (ollama_request messages model) of
             Fetch_throws \<Rightarrow> Response_json (JObj [(ascii ''error'', JStr internal_error)]) 500
           | Fetch_response ok None \<Rightarrow>
               Response_json (JObj [(ascii ''error'', JStr ollama_failed)]) 500
           | Fetch_response ok (Some reads) \<Rightarrow>
               if \<not> ok then Response_json (JObj [(ascii ''error'', JStr ollama_failed)]) 500
               else new_Response (start reads)
                      [(''Content-Type'', ''text/event-stream''),
                       (''Cache-Control'', ''no-cache''),
                       (''Connection'', ''keep-alive'')]))"


section \<open>The page: \<^verbatim>\<open>handleSubmit\<close> and \<^verbatim>\<open>handleStop\<close> of the \<^verbatim>\<open>Home\<close> component\<close>

datatype role = User | Assistant

record message =
  role :: role
  content :: jsstring
  thinking :: "jsstring option"

text \<open>
  A thrown value: an \<^verbatim>\<open>Error\<close> instance, given by its \<^verbatim>\<open>name\<close> (the one property
  the \<^verbatim>\<open>catch\<close> block reads), or anything else.  An aborted fetch rejects with a
  \<^verbatim>\<open>DOMException\<close> named \<^verbatim>\<open>AbortError\<close>, which is an \<^verbatim>\<open>Error\<close> instance;
  \<^verbatim>\<open>new Error(...)\<close> is named \<^verbatim>\<open>Error\<close>.
\<close>

datatype thrown = Error_instance string | Not_an_Error

definition AbortError :: thrown where
  "AbortError = Error_instance ''AbortError''"

definition error_marker :: jsstring where
  "error_marker =
     [0x0A, 0x0A, 0x5B, 0x51FA, 0x9519, 0x4E86, 0xFF0C, 0x8BF7, 0x91CD, 0x8BD5, 0x5D]"

subsection \<open>The state \<^verbatim>\<open>messages\<close> and its updates\<close>

text \<open>
  What \<^verbatim>\<open>handleSubmit\<close> passes to \<^verbatim>\<open>setMessages\<close>: a value (the transcript with the
  empty draft), the updater of the read loop, the updater of the \<^verbatim>\<open>catch\<close> block.  The
  updater of the read loop is an arrow function that mentions the variables \<^verbatim>\<open>content\<close>
  and \<^verbatim>\<open>thinking\<close> of the handler: it reads them when React runs it, not when it is
  passed to \<^verbatim>\<open>setMessages\<close>.
\<close>

datatype updater = Value_of "message list" | Replace_draft | Append_marker

text \<open>
  \<^verbatim>\<open>(prev) => [...prev.slice(0, -1), { role: "assistant", content, thinking }]\<close>, for
  the values \<open>c\<close> and \<open>t\<close> the two variables have when it is run.
\<close>

definition replace_draft :: "jsstring \<Rightarrow> jsstring \<Rightarrow> message list \<Rightarrow> message list" where
  "replace_draft c t prev = butlast prev @ [\<lparr>role = Assistant, content = c, thinking = Some t\<rparr>]"

text \<open>
  The updater of the \<^verbatim>\<open>catch\<close> block.  On an empty list the source would read
  \<^verbatim>\<open>undefined.content\<close>; \<^verbatim>\<open>handleSubmit\<close> never gets there, the list holds the draft.
\<close>

definition append_marker :: "message list \<Rightarrow> message list" where
  "append_marker prev =
     (case rev prev of
        [] \<Rightarrow> []
      | m # earlier \<Rightarrow> butlast prev @ [m\<lparr>content := content m @ error_marker\<rparr>])"

fun run_updater :: "updater \<Rightarrow> jsstring \<Rightarrow> jsstring \<Rightarrow> message list \<Rightarrow> message list" where
  "run_updater (Value_of v) c t prev = v"
| "run_updater Replace_draft c t prev = replace_draft c t prev"
| "run_updater Append_marker c t prev = append_marker prev"

text \<open>React runs the queued updates in the order of their calls.\<close>

fun run_queue :: "updater list \<Rightarrow> jsstring \<Rightarrow> jsstring \<Rightarrow> message list \<Rightarrow> message list" where
  "run_queue [] c t prev = prev"
| "run_queue (u # us) c t prev = run_queue us c t (run_updater u c t prev)"

text \<open>
  The component's state.  \<open>messages\<close> is the transcript of the last render, \<open>rendered\<close>
  every transcript the component was rendered with since, oldest first.  \<open>input\<close> and
  \<open>isLoading\<close> hold the value last given to their setters, \<open>abortRef\<close> tells whether
  \<^verbatim>\<open>abortRef.current\<close> holds a controller, \<open>console\<close> is what \<^verbatim>\<open>console.error\<close> was
  given.  When React renders is not in the hands of the handler: \<open>scheduler\<close> lists what
  React will decide at the coming points where it has a choice, \<open>True\<close> for running the
  queued updates now; once the list is used up React waits until the handler has returned.
\<close>

record page =
  messages :: "message list"
  input :: jsstring
  isLoading :: bool
  abortRef :: bool
  console :: "thrown list"
  rendered :: "message list list"
  scheduler :: "bool list"

text \<open>
  The state of one turn: the page, the local variables of the read loop, and the updates
  of \<open>messages\<close> that React has queued and not yet rendered.
\<close>

record turn = page +
  content_var :: jsstring
  thinking_var :: jsstring
  pending :: "updater list"

definition decision :: "'a page_scheme \<Rightarrow> bool" where
  "decision st \<longleftrightarrow> (case scheduler st of [] \<Rightarrow> False | d # ds \<Rightarrow> d)"

definition decided :: "'a page_scheme \<Rightarrow> 'a page_scheme" where
  "decided st = st\<lparr>scheduler := tl (scheduler st)\<rparr>"

text \<open>
  A call of \<^verbatim>\<open>setMessages\<close> queues the update.  When nothing else is queued React may
  compute the new state at once, from the state of the last render, and queue the result
  in place of the function; otherwise the function waits in the queue for the next
  render.
\<close>

definition setMessages :: "updater \<Rightarrow> turn \<Rightarrow> turn" where
  "setMessages u t =
     (if pending t = [] then
        (if decision t
         then (decided t)
                \<lparr>pending := [Value_of (run_updater u (content_var t) (thinking_var t) (messages t))]\<rparr>
         else (decided t)\<lparr>pending := [u]\<rparr>)
      else t\<lparr>pending := pending t @ [u]\<rparr>)"

text \<open>
  A render runs the queued updates, with the values the handler's variables have by
  then, and shows the result.  \<open>shown\<close> is the transcript a render would show now.
\<close>

definition shown :: "turn \<Rightarrow> message list" where
  "shown t = run_queue (pending t) (content_var t) (thinking_var t) (messages t)"

definition render :: "turn \<Rightarrow> turn" where
  "render t =
     (if pending t = [] then t
      else t\<lparr>messages := shown t, rendered := rendered t @ [shown t], pending := []\<rparr>)"

text \<open>
  The handler is suspended at an \<^verbatim>\<open>await\<close>: React may render before it goes on.  Between
  two \<^verbatim>\<open>await\<close>s the handler runs to completion and nothing is rendered.
\<close>

definition suspended :: "turn \<Rightarrow> turn" where
  "suspended t = (if decision t then render (decided t) else decided t)"

subsection \<open>The handlers\<close>

definition handleStop :: "'a page_scheme \<Rightarrow> 'a page_scheme" where
  "handleStop st = st\<lparr>abortRef := False, isLoading := False\<rparr>"

text \<open>
  \<^verbatim>\<open>s += v\<close> for a value \<open>v\<close> of \<^verbatim>\<open>JSON.parse\<close>: a string is appended as it is; any other
  value is converted first (ToPrimitive, then ToString), which throws a TypeError for an
  object whose own \<^verbatim>\<open>toString\<close> property hides the inherited method.
\<close>

fun to_string :: "json \<Rightarrow> jsstring option" where
  "to_string JNull = Some (ascii ''null'')"
| "to_string (JBool b) = Some (if b then ascii ''true'' else ascii ''false'')"
| "to_string (JNum n) = Some n"
| "to_string (JStr s) = Some s"
| "to_string (JArr vs) =
     map_option (join [0x2C])
       (those (map (\<lambda>v. if v = JNull then Some [] else to_string v) vs))"
| "to_string (JObj kvs) =
     (if ascii ''toString'' \<in> fst ` set kvs then None else Some (ascii ''[object Object]''))"

text \<open>\<^verbatim>\<open>if (v) s += v\<close>: the new value of \<open>s\<close>, or the TypeError.\<close>

definition append_if_truthy :: "json option \<Rightarrow> jsstring \<Rightarrow> js_error + jsstring" where
  "append_if_truthy v s =
     (case v of
        None \<Rightarrow> Inr s
      | Some x \<Rightarrow>
          if truthy x then (case to_string x of None \<Rightarrow> Inl TypeError | Some t \<Rightarrow> Inr (s @ t))
          else Inr s)"

text \<open>
  The body of \<^verbatim>\<open>for (const line of lines)\<close> in the page.  The sentinel is skipped; what
  the \<^verbatim>\<open>try\<close> block throws is caught and dropped, and an assignment made before the throw
  stays.
\<close>

definition consume_line :: "jsstring \<Rightarrow> turn \<Rightarrow> turn" where
  "consume_line line t =
     (let data = trim (slice_from 5 line) in
      if data = ascii ''[DONE]'' then t
      else
        (case JSON_parse data of
           Inl e \<Rightarrow> t
         | Inr json \<Rightarrow>
             (case get_prop json (ascii ''thinking'') of
                Inl e \<Rightarrow> t
              | Inr th \<Rightarrow>
                  (case append_if_truthy th (thinking_var t) of
                     Inl e \<Rightarrow> t
                   | Inr thinking' \<Rightarrow>
                       (let t1 = t\<lparr>thinking_var := thinking'\<rparr> in
                        case get_prop json (ascii ''content'') of
                          Inl e \<Rightarrow> t1
                        | Inr co \<Rightarrow>
                            (case append_if_truthy co (content_var t1) of
                               Inl e \<Rightarrow> t1
                             | Inr content' \<Rightarrow>
                                 setMessages Replace_draft (t1\<lparr>content_var := content'\<rparr>)))))))"

fun consume_lines :: "jsstring list \<Rightarrow> turn \<Rightarrow> turn" where
  "consume_lines [] t = t"
| "consume_lines (line # lines) t = consume_lines lines (consume_line line t)"

definition data_lines :: "jsstring \<Rightarrow> jsstring list" where
  "data_lines text = filter (\<lambda>l. startsWith l (ascii ''data:'')) (split_newline text)"

text \<open>
  What \<^verbatim>\<open>await reader.read()\<close> gives in the page: a chunk of text, a rejection, or
  \<open>Stopped\<close>: the user pressed the stop button while the read was pending, so
  \<^verbatim>\<open>handleStop\<close> runs and the read rejects with the AbortError.  The end of the list is
  \<^verbatim>\<open>done\<close>.  The loop returns the state and what it threw, if anything.
\<close>

datatype net_read = Value jsstring | Rejected thrown | Stopped

fun read_loop :: "net_read list \<Rightarrow> turn \<Rightarrow> turn \<times> thrown option" where
  "read_loop [] t = (suspended t, None)"
| "read_loop (Value v # reads) t = read_loop reads (consume_lines (data_lines v) (suspended t))"
| "read_loop (Rejected e # reads) t = (suspended t, Some e)"
| "read_loop (Stopped # reads) t = (handleStop (suspended t), Some AbortError)"

text \<open>What \<^verbatim>\<open>await fetch("/api/chat", ...)\<close> gives: a rejection, or a response (\<^verbatim>\<open>ok\<close>, \<^verbatim>\<open>body\<close>).\<close>

datatype fetched = Fetch_rejected thrown | Fetched bool "net_read list option"

definition role_name :: "role \<Rightarrow> jsstring" where
  "role_name r = (case r of User \<Rightarrow> ascii ''user'' | Assistant \<Rightarrow> ascii ''assistant'')"

text \<open>The request body: \<^verbatim>\<open>role\<close> and \<^verbatim>\<open>content\<close> of every message, never \<^verbatim>\<open>thinking\<close>.\<close>

definition chat_request :: "message list \<Rightarrow> jsstring" where
  "chat_request ms =
     stringify (JObj [(ascii ''messages'',
       JArr (map (\<lambda>m. JObj [(ascii ''role'', JStr (role_name (role m))),
                             (ascii ''content'', JStr (content m))]) ms))])"

text \<open>The \<^verbatim>\<open>try\<close> block of \<^verbatim>\<open>handleSubmit\<close>.\<close>

definition try_block :: "(jsstring \<Rightarrow> fetched) \<Rightarrow> message list \<Rightarrow> turn \<Rightarrow> turn \<times> thrown option" where
  "try_block fetch newMessages t =
     (case fetch (chat_request newMessages) of
        Fetch_rejected e \<Rightarrow> (suspended t, Some e)
      | Fetched ok None \<Rightarrow> (suspended t, Some (Error_instance ''Error''))
      | Fetched ok (Some reads) \<Rightarrow>
          if \<not> ok then (suspended t, Some (Error_instance ''Error''))
          else read_loop reads ((suspended t)\<lparr>content_var := [], thinking_var := []\<rparr>))"

text \<open>\<^verbatim>\<open>error instanceof Error && error.name !== "AbortError"\<close>\<close>

definition not_cancelled :: "thrown \<Rightarrow> bool" where
  "not_cancelled error =
     (case error of
        Error_instance name \<Rightarrow> name \<noteq> ''AbortError''
      | Not_an_Error \<Rightarrow> False)"

definition catch_block :: "thrown \<Rightarrow> turn \<Rightarrow> turn" where
  "catch_block error t =
     (if not_cancelled error
      then setMessages Append_marker (t\<lparr>console := console t @ [error]\<rparr>)
      else t)"

definition finally_block :: "'a page_scheme \<Rightarrow> 'a page_scheme" where
  "finally_block st = st\<lparr>isLoading := False, abortRef := False\<rparr>"

text \<open>
  \<^verbatim>\<open>userMessage\<close>, \<^verbatim>\<open>newMessages\<close> and the state when the \<^verbatim>\<open>try\<close> block is entered.
  The handler belongs to the last render: no update of \<open>messages\<close> is queued when it is
  called.
\<close>

definition userMessage :: "page \<Rightarrow> message" where
  "userMessage st = \<lparr>role = User, content = trim (input st), thinking = None\<rparr>"

definition newMessages :: "page \<Rightarrow> message list" where
  "newMessages st = messages st @ [userMessage st]"

definition begin_turn :: "page \<Rightarrow> turn" where
  "begin_turn st =
     (setMessages
        (Value_of (newMessages st @ [\<lparr>role = Assistant, content = [], thinking = None\<rparr>]))
        (page.extend st \<lparr>content_var = [], thinking_var = [], pending = []\<rparr>))
       \<lparr>input := [], isLoading := True, abortRef := True\<rparr>"

text \<open>
  One turn: the handler from its call to its return, and the render that follows its
  return.
\<close>

definition handleSubmit :: "(jsstring \<Rightarrow> fetched) \<Rightarrow> page \<Rightarrow> page" where
  "handleSubmit fetch st =
     (if trim (input st) = [] \<or> isLoading st then st
      else
        (case try_block fetch (newMessages st) (begin_turn st) of
           (t, None) \<Rightarrow> page.truncate (render (finally_block t))
         | (t, Some error) \<Rightarrow> page.truncate (render (finally_block (catch_block error t)))))"


text \<open>
  The component when it is mounted: the initial values of its \<^verbatim>\<open>useState\<close> cells.  Its
  scheduler has nothing listed: React renders when the handler has returned.
  \<open>eager\<close> is a scheduler under which React runs every update as soon as it can.
\<close>

definition initial_page :: page where
  "initial_page =
     \<lparr>messages = [], input = [], isLoading = False, abortRef = False, console = [],
      rendered = [], scheduler = []\<rparr>"

definition eager :: "bool list" where
  "eager = replicate 16 True"


section \<open>What the properties speak of\<close>

text \<open>
  The text shown for a message's thinking (nothing while the field is absent), and what it
  means for one transcript to grow into the next: the messages before the draft are the
  same, and the draft's content and thinking each extend what they were.
  \<open>variables t\<close> are the two strings of the read loop.
\<close>

definition thinking_text :: "message \<Rightarrow> jsstring" where
  "thinking_text m = (case thinking m of None \<Rightarrow> [] | Some t \<Rightarrow> t)"

definition grows :: "message list \<Rightarrow> message list \<Rightarrow> bool" where
  "grows old new \<longleftrightarrow>
     old \<noteq> [] \<and> new \<noteq> [] \<and> butlast new = butlast old \<and>
     prefix (content (last old)) (content (last new)) \<and>
     prefix (thinking_text (last old)) (thinking_text (last new))"

definition variables :: "turn \<Rightarrow> jsstring \<times> jsstring" where
  "variables t = (thinking_var t, content_var t)"

text \<open>
  \<open>tracks n B t\<close>, the invariant of a turn whose transcript before the draft is \<open>B\<close> and
  whose renders are those after position \<open>n\<close>: the transcripts rendered so far grow one
  into the next, and whenever React renders from now on, with the variables as they are or
  longer, it shows a transcript that grows out of the last one rendered and whose draft
  holds the content string as it is now or as it is then, and a thinking string not ahead
  of the variable.
\<close>

definition tracks :: "nat \<Rightarrow> message list \<Rightarrow> turn \<Rightarrow> bool" where
  "tracks n B t \<longleftrightarrow>
     successively grows (drop n (rendered t)) \<and>
     (n < length (rendered t) \<longrightarrow> last (rendered t) = messages t) \<and>
     (\<forall>c th. prefix (content_var t) c \<and> prefix (thinking_var t) th \<longrightarrow>
        (let R = run_queue (pending t) c th (messages t) in
           R \<noteq> [] \<and> butlast R = B \<and> role (last R) = Assistant \<and>
           (content (last R) = content_var t \<or> content (last R) = c) \<and>
           prefix (thinking_text (last R)) th \<and>
           (n < length (rendered t) \<longrightarrow> grows (messages t) R)))"

text \<open>
  A line is half applied when its thinking is appended and the conversion of its content
  then throws, as for \<^verbatim>\<open>{"thinking":"x","content":{"toString":0}}\<close>: the one way for
  the loop to change a variable without calling \<^verbatim>\<open>setMessages\<close>.  It is read off a
  turn that starts from nothing.
\<close>

definition blank :: turn where
  "blank = page.extend initial_page \<lparr>content_var = [], thinking_var = [], pending = []\<rparr>"

definition half_applied :: "jsstring \<Rightarrow> bool" where
  "half_applied line \<longleftrightarrow>
     thinking_var (consume_line line blank) \<noteq> [] \<and> pending (consume_line line blank) = []"

text \<open>What the \<^verbatim>\<open>try\<close> block of a submission throws, and the state it leaves.\<close>

definition raised :: "(jsstring \<Rightarrow> fetched) \<Rightarrow> page \<Rightarrow> thrown option" where
  "raised fetch st = snd (try_block fetch (newMessages st) (begin_turn st))"

definition left_by_try :: "(jsstring \<Rightarrow> fetched) \<Rightarrow> page \<Rightarrow> turn" where
  "left_by_try fetch st = fst (try_block fetch (newMessages st) (begin_turn st))"

text \<open>\<^verbatim>\<open>{ thinking, content }\<close> for a pair of optional strings.\<close>

definition pair_object :: "jsstring option \<Rightarrow> jsstring option \<Rightarrow> json" where
  "pair_object th co =
     object_literal [(ascii ''thinking'', map_option JStr th), (ascii ''content'', map_option JStr co)]"

text \<open>The text a field stands for: nothing when it is absent.\<close>

definition text_of :: "jsstring option \<Rightarrow> jsstring" where
  "text_of s = (case s of None \<Rightarrow> [] | Some x \<Rightarrow> x)"


section \<open>The parser always consumes\<close>

declare parse_value.simps [simp del] parse_elements.simps [simp del] parse_members.simps [simp del]

lemma parse_chars_shorter: "parse_chars s = Some (x, r) \<Longrightarrow> length r < length s"
proof (induction s arbitrary: x r rule: parse_chars.induct)
  case 1
  then show ?case by simp
next
  case (2 c cs)
  then show ?case
    by (fastforce simp: push_def split: if_splits list.splits option.splits)
qed

lemma skip_ws_length: "length (skip_ws s) \<le> length s"
  by (simp add: skip_ws_def length_dropWhile_le)

lemma skip_ws_Cons_shorter: "skip_ws s = c # cs \<Longrightarrow> length cs < length s"
  using skip_ws_length [of s] by simp

lemma parse_number_shorter: "parse_number s = Some (n, r) \<Longrightarrow> length r < length s"
proof -
  have i: "parse_int a = Some (x, b) \<Longrightarrow> length b < length a" for a x b
    using length_dropWhile_le [of is_digit "tl a"]
    by (auto simp: parse_int_def split: list.splits if_splits)
  have f: "parse_frac a = Some (x, b) \<Longrightarrow> length b \<le> length a" for a x b
    using length_dropWhile_le [of is_digit "tl a"]
    by (auto simp: parse_frac_def split: list.splits if_splits)
  have e: "parse_exp a = Some (x, b) \<Longrightarrow> length b \<le> length a" for a x b
    using length_dropWhile_le [of is_digit "tl a"] length_dropWhile_le [of is_digit "tl (tl a)"]
    by (auto simp: parse_exp_def Let_def split: list.splits if_splits)
  assume "parse_number s = Some (n, r)"
  then show ?thesis
    by (auto simp: parse_number_def split: list.splits if_splits option.splits prod.splits
             dest!: i f e)
qed

lemma parser_consumes:
  "(\<forall>v r. parse_value s = Some (v, r) \<longrightarrow> length r < length s)"
  "(\<forall>v r. parse_elements acc s = Some (v, r) \<longrightarrow> length r < length s)"
  "(\<forall>v r. parse_members kvs s = Some (v, r) \<longrightarrow> length r < length s)"
proof (induction s and acc s and kvs s rule: parse_value_parse_elements_parse_members.induct)
  case (1 s)
  show ?case
  proof (intro allI impI)
    fix v r assume p: "parse_value s = Some (v, r)"
    show "length r < length s"
    proof (cases "skip_ws s")
      case Nil
      with p show ?thesis by (simp add: parse_value.simps)
    next
      case (Cons c cs)
      then have l: "length cs < length s" by (rule skip_ws_Cons_shorter)
      show ?thesis
      proof (cases "c = 0x7B \<or> c = 0x5B")
        case False
        with p Cons l show ?thesis
          by (subst (asm) parse_value.simps)
             (auto split: if_splits option.splits
                   dest: parse_chars_shorter parse_number_shorter)
      next
        case True
        show ?thesis
        proof (cases "skip_ws cs")
          case Nil
          with p Cons True show ?thesis
            by (subst (asm) parse_value.simps) auto
        next
          case inner: (Cons d ds)
          then have l': "length ds < length cs" by (rule skip_ws_Cons_shorter)
          from True show ?thesis
          proof
            assume c: "c = 0x7B"
            show ?thesis
            proof (cases "d = 0x7D")
              case True
              with p Cons inner c l l' show ?thesis
                by (subst (asm) parse_value.simps) auto
            next
              case False
              with p Cons inner c have "parse_members [] cs = Some (v, r)"
                by (subst (asm) parse_value.simps) auto
              with "1.IH"(1) [OF Cons c inner False] l show ?thesis by auto
            qed
          next
            assume c: "c = 0x5B"
            show ?thesis
            proof (cases "d = 0x5D")
              case True
              with p Cons inner c l l' show ?thesis
                by (subst (asm) parse_value.simps) auto
            next
              case False
              with p Cons inner c have "parse_elements [] cs = Some (v, r)"
                by (subst (asm) parse_value.simps) auto
              moreover from c have "c \<noteq> 0x7B" by simp
              ultimately show ?thesis
                using "1.IH"(2) [OF Cons _ c inner False] l by auto
            qed
          qed
        qed
      qed
    qed
  qed
next
  case (2 acc s)
  show ?case
  proof (intro allI impI)
    fix v r assume "parse_elements acc s = Some (v, r)"
    then have "\<exists>v' r' c r''. parse_value s = Some (v', r') \<and> length r' < length s \<and>
        skip_ws r' = c # r'' \<and>
        ((c = 0x2C \<and> parse_elements (acc @ [v']) r'' = Some (v, r)) \<or> (c = 0x5D \<and> r = r''))"
      by (subst (asm) parse_elements.simps)
         (auto split: option.splits list.splits if_splits)
    then obtain v' r' c r'' where pv: "parse_value s = Some (v', r')"
      and g: "length r' < length s" and sk: "skip_ws r' = c # r''"
      and d: "(c = 0x2C \<and> parse_elements (acc @ [v']) r'' = Some (v, r)) \<or> (c = 0x5D \<and> r = r'')"
      by blast
    from sk have l: "length r'' < length r'" by (rule skip_ws_Cons_shorter)
    from d show "length r < length s"
    proof
      assume c: "c = 0x2C \<and> parse_elements (acc @ [v']) r'' = Some (v, r)"
      with "2.IH"(2) [OF pv refl g sk] have "length r < length r''" by blast
      with l g show ?thesis by simp
    next
      assume "c = 0x5D \<and> r = r''"
      with l g show ?thesis by simp
    qed
  qed
next
  case (3 kvs s)
  show ?case
  proof (intro allI impI)
    fix v r assume "parse_members kvs s = Some (v, r)"
    then have "\<exists>cs k r1 r2 v' r3 c3 r4. skip_ws s = 0x22 # cs \<and> parse_chars cs = Some (k, r1) \<and>
        skip_ws r1 = 0x3A # r2 \<and> parse_value r2 = Some (v', r3) \<and> length r3 < length r2 \<and>
        skip_ws r3 = c3 # r4 \<and>
        ((c3 = 0x2C \<and> parse_members (obj_set kvs k v') r4 = Some (v, r)) \<or> (c3 = 0x7D \<and> r = r4))"
      by (subst (asm) parse_members.simps)
         (auto split: option.splits list.splits if_splits)
    then obtain cs k r1 r2 v' r3 c3 r4 where s1: "skip_ws s = 0x22 # cs"
      and pc: "parse_chars cs = Some (k, r1)" and s2: "skip_ws r1 = 0x3A # r2"
      and pv: "parse_value r2 = Some (v', r3)" and g: "length r3 < length r2"
      and s3: "skip_ws r3 = c3 # r4"
      and d: "(c3 = 0x2C \<and> parse_members (obj_set kvs k v') r4 = Some (v, r)) \<or> (c3 = 0x7D \<and> r = r4)"
      by blast
    from s1 s2 s3 pc have l: "length r4 < length s"
      using skip_ws_Cons_shorter [OF s1] skip_ws_Cons_shorter [OF s2] skip_ws_Cons_shorter [OF s3]
        parse_chars_shorter [OF pc] g by simp
    from d show "length r < length s"
    proof
      assume c: "c3 = 0x2C \<and> parse_members (obj_set kvs k v') r4 = Some (v, r)"
      with "3.IH"(2) [OF s1 refl pc refl s2 refl pv refl g s3] have "length r < length r4" by blast
      with l show ?thesis by simp
    next
      assume "c3 = 0x7D \<and> r = r4"
      with l show ?thesis by simp
    qed
  qed
qed


section \<open>Splitting text into lines\<close>

lemma split_newline_not_Nil: "split_newline s \<noteq> []"
  by (induction s) (auto split: list.splits)

lemma split_newline_append_newline:
  "split_newline (a @ 0x0A # b) = split_newline a @ split_newline b"
proof (induction a)
  case Nil
  show ?case by simp
next
  case (Cons c a)
  obtain l ls where "split_newline a = l # ls"
    using split_newline_not_Nil [of a] by (cases "split_newline a") auto
  with Cons show ?case by simp
qed

lemma split_newline_snoc_newline: "split_newline (a @ [0x0A]) = split_newline a @ [[]]"
  using split_newline_append_newline [of a "[]"] by simp

lemma trim_Nil: "trim [] = []"
  by (simp add: trim_def)


section \<open>The relay does not reassemble lines\<close>

lemma relay_line_Nil: "relay_line [] = []"
  by (simp add: relay_line_def trim_Nil)

lemma relay_lines_append: "relay_lines (xs @ ys) = relay_lines xs @ relay_lines ys"
  by (induction xs) simp_all

lemma relay_lines_split_append:
  assumes "c = [] \<or> last c = 0x0A"
  shows "relay_lines (split_newline (c @ r)) =
         relay_lines (split_newline c) @ relay_lines (split_newline r)"
proof (cases "c = []")
  case True
  then show ?thesis by (simp add: relay_line_Nil)
next
  case False
  with assms obtain a where c: "c = a @ [0x0A]"
    by (metis append_butlast_last_id)
  have "relay_lines (split_newline (c @ r)) =
        relay_lines (split_newline a) @ relay_lines (split_newline r)"
    by (simp add: c split_newline_append_newline relay_lines_append)
  moreover have "relay_lines (split_newline c) = relay_lines (split_newline a)"
    by (simp add: c split_newline_snoc_newline relay_lines_append relay_line_Nil)
  ultimately show ?thesis by simp
qed

lemma start_chunks:
  "start (map Chunk chunks) =
   \<lparr>enqueued = relay_lines (concat (map split_newline chunks)), failed = False\<rparr>"
  by (induction chunks) (simp_all add: relay_lines_append)

lemma relay_lines_aligned:
  "\<forall>c \<in> set (butlast chunks). c = [] \<or> last c = 0x0A \<Longrightarrow>
   relay_lines (concat (map split_newline chunks)) = relay_lines (split_newline (concat chunks))"
proof (induction chunks)
  case Nil
  show ?case by (simp add: relay_line_Nil)
next
  case (Cons c cs)
  show ?case
  proof (cases "cs = []")
    case True
    then show ?thesis by simp
  next
    case False
    with Cons.prems have c: "c = [] \<or> last c = 0x0A"
      and rest: "\<forall>c \<in> set (butlast cs). c = [] \<or> last c = 0x0A"
      by simp_all
    from Cons.IH [OF rest] relay_lines_split_append [OF c, of "concat cs"]
    show ?thesis by (simp add: relay_lines_append)
  qed
qed

text \<open>
  Claim C1, as the code has it.  The relay keeps no carry-over between reads: every chunk
  is split on newlines by itself and each of its segments, the last one included, is
  handled as a line of its own, so the events of a sequence of chunks are the events of
  its chunks taken one by one, and a line cut by a chunk boundary is handled as two lines.
  Feeding the chunks one at a time gives the same ordered events as feeding the whole
  input as one chunk whenever every chunk but the last is empty or ends with a newline,
  that is, whenever no line is cut.
\<close>

theorem relay_split_on_line_ends:
  "(\<forall>cs1 cs2. enqueued (start (map Chunk (cs1 @ cs2))) =
      enqueued (start (map Chunk cs1)) @ enqueued (start (map Chunk cs2))) \<and>
   start (map Chunk chunks) =
     \<lparr>enqueued = relay_lines (concat (map split_newline chunks)), failed = False\<rparr> \<and>
   ((\<forall>c \<in> set (butlast chunks). c = [] \<or> last c = 0x0A) \<longrightarrow>
      start (map Chunk chunks) = start [Chunk (concat chunks)])"
proof (intro conjI allI impI)
  fix cs1 cs2
  show "enqueued (start (map Chunk (cs1 @ cs2))) =
      enqueued (start (map Chunk cs1)) @ enqueued (start (map Chunk cs2))"
    using start_chunks [of "cs1 @ cs2"] start_chunks [of cs1] start_chunks [of cs2]
    by (simp add: relay_lines_append)
next
  show "start (map Chunk chunks) =
     \<lparr>enqueued = relay_lines (concat (map split_newline chunks)), failed = False\<rparr>"
    by (rule start_chunks)
next
  assume "\<forall>c \<in> set (butlast chunks). c = [] \<or> last c = 0x0A"
  from relay_lines_aligned [OF this] start_chunks [of chunks] start_chunks [of "[concat chunks]"]
  show "start (map Chunk chunks) = start [Chunk (concat chunks)]"
    by simp
qed

theorem relay_split_on_line_ends_witness:
  \<open>last (ascii ''{"message":{"thinking":"Let"},"done":false}\<newline>'') = 0x0A \<and>
   start [Chunk (ascii ''{"message":{"thinking":"Let"},"done":false}\<newline>''),
          Chunk (ascii ''{"message":{"content":"Hi!"},"done":true}\<newline>'')] =
   start [Chunk (ascii ''{"message":{"thinking":"Let"},"done":false}\<newline>'' @
                 ascii ''{"message":{"content":"Hi!"},"done":true}\<newline>'')] \<and>
   start [Chunk (ascii ''{"message":{"thinking":"Let"},"done":false}\<newline>''),
          Chunk (ascii ''{"message":{"content":"Hi!"},"done":true}\<newline>'')] =
   \<lparr>enqueued =
      [ascii ''data: {"thinking":"Let"}\<newline>\<newline>'',
       ascii ''data: {"content":"Hi!"}\<newline>\<newline>'',
       ascii ''data: [DONE]\<newline>\<newline>''],
    failed = False\<rparr>\<close>
proof -
  have h: \<open>last (ascii ''{"message":{"thinking":"Let"},"done":false}\<newline>'') = 0x0A\<close>
    by (simp add: ascii_def)
  have e: \<open>start [Chunk (ascii ''{"message":{"thinking":"Let"},"done":false}\<newline>''),
          Chunk (ascii ''{"message":{"content":"Hi!"},"done":true}\<newline>'')] =
   \<lparr>enqueued =
      [ascii ''data: {"thinking":"Let"}\<newline>\<newline>'',
       ascii ''data: {"content":"Hi!"}\<newline>\<newline>'',
       ascii ''data: [DONE]\<newline>\<newline>''],
    failed = False\<rparr>\<close>
    by code_simp
  let ?chunks = \<open>[ascii ''{"message":{"thinking":"Let"},"done":false}\<newline>'',
                   ascii ''{"message":{"content":"Hi!"},"done":true}\<newline>'']\<close>
  from relay_split_on_line_ends [of ?chunks]
  have "(\<forall>c \<in> set (butlast ?chunks). c = [] \<or> last c = 0x0A) \<longrightarrow>
        start (map Chunk ?chunks) = start [Chunk (concat ?chunks)]"
    by blast
  with h e show ?thesis by simp
qed

text \<open>
  The claim as the specification words it fails: a line cut inside a JSON token is lost,
  both halves are dropped as malformed.
\<close>

theorem relay_split_inside_token_counterexample:
  \<open>start [Chunk (ascii ''{"message":{"content":"Hi"},"do''),
          Chunk (ascii ''ne":false}\<newline>'')] = \<lparr>enqueued = [], failed = False\<rparr> \<and>
   start [Chunk (ascii ''{"message":{"content":"Hi"},"do'' @ ascii ''ne":false}\<newline>'')] =
   \<lparr>enqueued = [ascii ''data: {"content":"Hi"}\<newline>\<newline>''], failed = False\<rparr>\<close>
  by code_simp


section \<open>The handler's responses\<close>

lemma error_body_text:
  \<open>stringify (JObj [(ascii ''error'', JStr internal_error)]) =
   ascii ''{"error":"'' @ internal_error @ ascii ''"}''\<close>
  by code_simp

text \<open>
  Claim C5.  Once the request body has been read, the outcome of the call to the backend
  decides the response.  If the fetch throws (connection failure), or the backend answers
  with a non-success status or without a body, the handler returns status 500 with a JSON
  body \<^verbatim>\<open>{"error": <string>}\<close> and opens no stream.  If the backend answers with
  success and a body, the handler returns status 200 with \<^verbatim>\<open>Content-Type:
  text/event-stream\<close>, and the body is the relayed stream.
\<close>

theorem POST_backend_outcome:
  assumes "destructure_request req = Inr (ms, model)"
  shows
    "((fetch (ollama_request ms model) = Fetch_throws \<or>
       (\<exists>ok b. fetch (ollama_request ms model) = Fetch_response ok b \<and> (\<not> ok \<or> b = None))) \<longrightarrow>
        status (POST req fetch) = 500 \<and>
        (\<exists>msg. body (POST req fetch) =
           Json_text (stringify (JObj [(ascii ''error'', JStr msg)])))) \<and>
     (\<forall>reads. fetch (ollama_request ms model) = Fetch_response True (Some reads) \<longrightarrow>
        status (POST req fetch) = 200 \<and>
        map_of (headers (POST req fetch)) ''Content-Type'' = Some ''text/event-stream'' \<and>
        body (POST req fetch) = Event_stream (start reads))"
proof (intro conjI impI allI)
  assume "fetch (ollama_request ms model) = Fetch_throws \<or>
       (\<exists>ok b. fetch (ollama_request ms model) = Fetch_response ok b \<and> (\<not> ok \<or> b = None))"
  then show "status (POST req fetch) = 500"
    using assms by (auto simp: POST_def Response_json_def split: option.splits)
next
  assume "fetch (ollama_request ms model) = Fetch_throws \<or>
       (\<exists>ok b. fetch (ollama_request ms model) = Fetch_response ok b \<and> (\<not> ok \<or> b = None))"
  then show "\<exists>msg. body (POST req fetch) =
           Json_text (stringify (JObj [(ascii ''error'', JStr msg)]))"
    using assms by (auto simp: POST_def Response_json_def split: option.splits)
next
  fix reads
  assume ok: "fetch (ollama_request ms model) = Fetch_response True (Some reads)"
  with assms show "status (POST req fetch) = 200"
    by (simp add: POST_def new_Response_def)
  from ok assms
  show "map_of (headers (POST req fetch)) ''Content-Type'' = Some ''text/event-stream''"
    by (simp add: POST_def new_Response_def)
  from ok assms show "body (POST req fetch) = Event_stream (start reads)"
    by (simp add: POST_def new_Response_def)
qed

theorem POST_backend_outcome_witness:
  \<open>destructure_request (ascii ''{"messages":[{"role":"user","content":"hi"}]}'') =
     Inr (Some (JArr [JObj [(ascii ''role'', JStr (ascii ''user'')),
                            (ascii ''content'', JStr (ascii ''hi''))]]), JStr MODEL) \<and>
   status (POST (ascii ''{"messages":[{"role":"user","content":"hi"}]}'') (\<lambda>b. Fetch_throws)) = 500 \<and>
   status (POST (ascii ''{"messages":[{"role":"user","content":"hi"}]}'')
            (\<lambda>b. Fetch_response False (Some []))) = 500 \<and>
   body (POST (ascii ''{"messages":[{"role":"user","content":"hi"}]}'')
            (\<lambda>b. Fetch_response False (Some []))) =
     Json_text (ascii ''{"error":"'' @ ollama_failed @ ascii ''"}'') \<and>
   body (POST (ascii ''{"messages":[{"role":"user","content":"hi"}]}'')
          (\<lambda>b. Fetch_response True
                  (Some [Chunk (ascii ''{"message":{"content":"Hi!"},"done":true}\<newline>'')]))) =
     Event_stream \<lparr>enqueued = [ascii ''data: {"content":"Hi!"}\<newline>\<newline>'',
                               ascii ''data: [DONE]\<newline>\<newline>''],
                   failed = False\<rparr>\<close>
proof -
  let ?req = \<open>ascii ''{"messages":[{"role":"user","content":"hi"}]}''\<close>
  let ?ms = \<open>Some (JArr [JObj [(ascii ''role'', JStr (ascii ''user'')),
                            (ascii ''content'', JStr (ascii ''hi''))]])\<close>
  have d: "destructure_request ?req = Inr (?ms, JStr MODEL)"
    by code_simp
  have s: \<open>start [Chunk (ascii ''{"message":{"content":"Hi!"},"done":true}\<newline>'')] =
     \<lparr>enqueued = [ascii ''data: {"content":"Hi!"}\<newline>\<newline>'',
                  ascii ''data: [DONE]\<newline>\<newline>''],
      failed = False\<rparr>\<close>
    by code_simp
  have b: \<open>body (POST ?req (\<lambda>b. Fetch_response False (Some []))) =
     Json_text (ascii ''{"error":"'' @ ollama_failed @ ascii ''"}'')\<close>
    by code_simp
  from POST_backend_outcome [OF d, of "\<lambda>b. Fetch_throws"]
  have 1: "status (POST ?req (\<lambda>b. Fetch_throws)) = 500" by simp
  from POST_backend_outcome [OF d, of "\<lambda>b. Fetch_response False (Some [])"]
  have 2: "status (POST ?req (\<lambda>b. Fetch_response False (Some []))) = 500" by blast
  from POST_backend_outcome
    [OF d, of \<open>\<lambda>b. Fetch_response True
                  (Some [Chunk (ascii ''{"message":{"content":"Hi!"},"done":true}\<newline>'')])\<close>]
  have 3: \<open>body (POST ?req (\<lambda>b. Fetch_response True
                  (Some [Chunk (ascii ''{"message":{"content":"Hi!"},"done":true}\<newline>'')]))) =
     Event_stream (start [Chunk (ascii ''{"message":{"content":"Hi!"},"done":true}\<newline>'')])\<close>
    by simp
  from d 1 2 b 3 s show ?thesis by simp
qed

text \<open>
  Claim C10.  Whatever is thrown inside the handler's \<^verbatim>\<open>try\<close> block before the
  streaming response is built is caught: a request body that is not valid JSON
  (\<^verbatim>\<open>request.json()\<close> throws), a body that is \<^verbatim>\<open>null\<close> (the destructuring throws), a
  fetch to the backend that throws.  In each case the handler returns status 500 with the
  fixed JSON body \<^verbatim>\<open>{"error":"..."}\<close> holding the internal-error message, and no stream.
  \<open>POST\<close> is a total function: it returns a response for every request and every
  behaviour of the backend.
\<close>

theorem POST_catches:
  assumes "JSON_parse req = Inl e \<or> JSON_parse req = Inr JNull \<or>
           (\<exists>ms model. destructure_request req = Inr (ms, model) \<and>
                        fetch (ollama_request ms model) = Fetch_throws)"
  shows \<open>POST req fetch =
         \<lparr>status = 500, headers = [(''Content-Type'', ''application/json'')],
          body = Json_text (ascii ''{"error":"'' @ internal_error @ ascii ''"}'')\<rparr>\<close>
proof -
  from assms
  have "POST req fetch = Response_json (JObj [(ascii ''error'', JStr internal_error)]) 500"
    by (auto simp: POST_def destructure_request_def get_prop_def)
  then show ?thesis
    unfolding Response_json_def error_body_text by simp
qed

theorem POST_catches_witness:
  \<open>JSON_parse (ascii ''{"messages":'') = Inl SyntaxError \<and>
   POST (ascii ''{"messages":'') (\<lambda>b. Fetch_response True (Some [])) =
     \<lparr>status = 500, headers = [(''Content-Type'', ''application/json'')],
      body = Json_text (ascii ''{"error":"'' @ internal_error @ ascii ''"}'')\<rparr> \<and>
   POST (ascii ''null'') (\<lambda>b. Fetch_response True (Some [])) =
     \<lparr>status = 500, headers = [(''Content-Type'', ''application/json'')],
      body = Json_text (ascii ''{"error":"'' @ internal_error @ ascii ''"}'')\<rparr> \<and>
   POST (ascii ''{"messages":[]}'') (\<lambda>b. Fetch_throws) =
     \<lparr>status = 500, headers = [(''Content-Type'', ''application/json'')],
      body = Json_text (ascii ''{"error":"'' @ internal_error @ ascii ''"}'')\<rparr>\<close>
proof -
  have a: \<open>JSON_parse (ascii ''{"messages":'') = Inl SyntaxError\<close> by code_simp
  have b: \<open>JSON_parse (ascii ''null'') = Inr JNull\<close> by code_simp
  have c: \<open>destructure_request (ascii ''{"messages":[]}'') = Inr (Some (JArr []), JStr MODEL)\<close>
    by code_simp
  from a POST_catches [of \<open>ascii ''{"messages":''\<close> SyntaxError "\<lambda>b. Fetch_response True (Some [])"]
    b POST_catches [of \<open>ascii ''null''\<close> SyntaxError "\<lambda>b. Fetch_response True (Some [])"]
    c POST_catches [of \<open>ascii ''{"messages":[]}''\<close> SyntaxError "\<lambda>b. Fetch_throws"]
  show ?thesis by simp
qed


section \<open>Updates, renders and the variables\<close>

lemma run_queue_append:
  "run_queue (q @ q') c t prev = run_queue q' c t (run_queue q c t prev)"
  by (induction q arbitrary: prev) simp_all

lemma setMessages_fields [simp]:
  "content_var (setMessages u t) = content_var t"
  "thinking_var (setMessages u t) = thinking_var t"
  "messages (setMessages u t) = messages t"
  "rendered (setMessages u t) = rendered t"
  "console (setMessages u t) = console t"
  "isLoading (setMessages u t) = isLoading t"
  "abortRef (setMessages u t) = abortRef t"
  "input (setMessages u t) = input t"
  by (simp_all add: setMessages_def decided_def)

lemma render_fields [simp]:
  "content_var (render t) = content_var t"
  "thinking_var (render t) = thinking_var t"
  "console (render t) = console t"
  "isLoading (render t) = isLoading t"
  "abortRef (render t) = abortRef t"
  "input (render t) = input t"
  "scheduler (render t) = scheduler t"
  "pending (render t) = []"
  by (simp_all add: render_def)

lemma suspended_fields [simp]:
  "content_var (suspended t) = content_var t"
  "thinking_var (suspended t) = thinking_var t"
  "console (suspended t) = console t"
  "isLoading (suspended t) = isLoading t"
  "abortRef (suspended t) = abortRef t"
  "input (suspended t) = input t"
  "scheduler (suspended t) = tl (scheduler t)"
  by (simp_all add: suspended_def decided_def)

lemma shown_setMessages:
  "shown (setMessages u t) = run_updater u (content_var t) (thinking_var t) (shown t)"
  by (simp add: shown_def setMessages_def decided_def run_queue_append)

lemma messages_render: "messages (render t) = shown t"
  by (simp add: render_def shown_def)

lemma shown_render: "shown (render t) = shown t"
  by (simp add: render_def shown_def)

lemma shown_decided: "shown (decided t) = shown t"
  by (simp add: shown_def decided_def)

lemma shown_suspended: "shown (suspended t) = shown t"
  by (simp add: suspended_def shown_render shown_decided)

lemma shown_handleStop: "shown (handleStop t) = shown t"
  by (simp add: shown_def handleStop_def)

lemma shown_finally: "shown (finally_block t) = shown t"
  by (simp add: shown_def finally_block_def)

lemma append_if_truthy_prefix: "append_if_truthy v s = Inr s' \<Longrightarrow> prefix s s'"
  by (auto simp: append_if_truthy_def split: option.splits if_splits)

lemma append_if_truthy_append:
  "append_if_truthy v s = (case append_if_truthy v [] of Inl e \<Rightarrow> Inl e | Inr x \<Rightarrow> Inr (s @ x))"
  by (simp add: append_if_truthy_def split: option.splits)

text \<open>
  The variables after a line depend on the line and on the variables before it, on nothing
  else: not on what React has decided or rendered.
\<close>

lemma consume_line_variables:
  "variables t = variables t' \<Longrightarrow> variables (consume_line l t) = variables (consume_line l t')"
  by (simp add: variables_def consume_line_def Let_def split: sum.splits)

lemma consume_lines_variables:
  "variables t = variables t' \<Longrightarrow> variables (consume_lines ls t) = variables (consume_lines ls t')"
proof (induction ls arbitrary: t t')
  case Nil
  then show ?case by simp
next
  case (Cons l ls)
  from Cons.IH [OF consume_line_variables [OF Cons.prems]] show ?case by simp
qed

lemma variables_suspended: "variables (suspended t) = variables t"
  by (simp add: variables_def)

lemma variables_scheduler: "variables (t\<lparr>scheduler := ds\<rparr>) = variables t"
  by (simp add: variables_def)

lemma consume_line_page:
  "console (consume_line l t) = console t \<and> isLoading (consume_line l t) = isLoading t \<and>
   abortRef (consume_line l t) = abortRef t \<and> input (consume_line l t) = input t"
  by (simp add: consume_line_def Let_def split: sum.splits)

lemma consume_lines_page:
  "console (consume_lines ls t) = console t \<and> isLoading (consume_lines ls t) = isLoading t \<and>
   abortRef (consume_lines ls t) = abortRef t \<and> input (consume_lines ls t) = input t"
  by (induction ls arbitrary: t) (simp_all add: consume_line_page)

lemma consume_lines_append:
  "consume_lines (xs @ ys) t = consume_lines ys (consume_lines xs t)"
  by (induction xs arbitrary: t) simp_all

section \<open>The invariant of a turn\<close>

lemma grows_refl: "ms \<noteq> [] \<Longrightarrow> grows ms ms"
  by (simp add: grows_def)

lemma grows_trans: "grows a b \<Longrightarrow> grows b c \<Longrightarrow> grows a c"
  by (auto simp: grows_def)

lemma grows_replace_draft:
  "ms \<noteq> [] \<Longrightarrow> prefix (content (last ms)) c \<Longrightarrow> prefix (thinking_text (last ms)) t \<Longrightarrow>
   grows ms (replace_draft c t ms)"
  by (simp add: grows_def replace_draft_def thinking_text_def)

lemma append_marker_last:
  "ms \<noteq> [] \<Longrightarrow>
   append_marker ms = butlast ms @ [(last ms)\<lparr>content := content (last ms) @ error_marker\<rparr>]"
  by (cases ms rule: rev_cases) (simp_all add: append_marker_def)

lemma grows_append_marker: "ms \<noteq> [] \<Longrightarrow> grows ms (append_marker ms)"
  by (simp add: append_marker_last grows_def thinking_text_def)

lemma tracksI:
  assumes "successively grows (drop n (rendered t))"
    and "n < length (rendered t) \<Longrightarrow> last (rendered t) = messages t"
    and "\<And>c th. prefix (content_var t) c \<Longrightarrow> prefix (thinking_var t) th \<Longrightarrow>
           run_queue (pending t) c th (messages t) \<noteq> [] \<and>
           butlast (run_queue (pending t) c th (messages t)) = B \<and>
           role (last (run_queue (pending t) c th (messages t))) = Assistant \<and>
           (content (last (run_queue (pending t) c th (messages t))) = content_var t \<or>
            content (last (run_queue (pending t) c th (messages t))) = c) \<and>
           prefix (thinking_text (last (run_queue (pending t) c th (messages t)))) th \<and>
           (n < length (rendered t) \<longrightarrow> grows (messages t) (run_queue (pending t) c th (messages t)))"
  shows "tracks n B t"
  using assms by (simp add: tracks_def Let_def)

lemma tracks_queue:
  assumes "tracks n B t" and "prefix (content_var t) c" and "prefix (thinking_var t) th"
  shows "run_queue (pending t) c th (messages t) \<noteq> []"
    and "butlast (run_queue (pending t) c th (messages t)) = B"
    and "role (last (run_queue (pending t) c th (messages t))) = Assistant"
    and "content (last (run_queue (pending t) c th (messages t))) = content_var t \<or>
         content (last (run_queue (pending t) c th (messages t))) = c"
    and "prefix (thinking_text (last (run_queue (pending t) c th (messages t)))) th"
    and "n < length (rendered t) \<Longrightarrow> grows (messages t) (run_queue (pending t) c th (messages t))"
  using assms by (simp_all add: tracks_def Let_def)

lemma tracks_rendered:
  assumes "tracks n B t"
  shows "successively grows (drop n (rendered t))"
    and "n < length (rendered t) \<Longrightarrow> last (rendered t) = messages t"
  using assms by (simp_all add: tracks_def)

lemma tracks_shown:
  assumes "tracks n B t"
  shows "shown t \<noteq> []" and "butlast (shown t) = B" and "role (last (shown t)) = Assistant"
    and "content (last (shown t)) = content_var t"
    and "prefix (thinking_text (last (shown t))) (thinking_var t)"
    and "n < length (rendered t) \<Longrightarrow> grows (messages t) (shown t)"
  using tracks_queue [OF assms, of "content_var t" "thinking_var t"]
  by (auto simp: shown_def)

lemma tracks_thinking:
  assumes "tracks n B t" and "prefix (thinking_var t) th'"
  shows "tracks n B (t\<lparr>thinking_var := th'\<rparr>)"
proof (rule tracksI)
  fix c th
  assume "prefix (content_var (t\<lparr>thinking_var := th'\<rparr>)) c"
    and "prefix (thinking_var (t\<lparr>thinking_var := th'\<rparr>)) th"
  then have c: "prefix (content_var t) c" and th: "prefix (thinking_var t) th"
    using assms(2) by auto
  let ?t = "t\<lparr>thinking_var := th'\<rparr>"
  from tracks_queue [OF assms(1) c th]
  show "run_queue (pending ?t) c th (messages ?t) \<noteq> [] \<and>
       butlast (run_queue (pending ?t) c th (messages ?t)) = B \<and>
       role (last (run_queue (pending ?t) c th (messages ?t))) = Assistant \<and>
       (content (last (run_queue (pending ?t) c th (messages ?t))) = content_var ?t \<or>
        content (last (run_queue (pending ?t) c th (messages ?t))) = c) \<and>
       prefix (thinking_text (last (run_queue (pending ?t) c th (messages ?t)))) th \<and>
       (n < length (rendered ?t) \<longrightarrow> grows (messages ?t) (run_queue (pending ?t) c th (messages ?t)))"
    by simp
qed (use tracks_rendered [OF assms(1)] in simp_all)

lemma replace_draft_facts:
  "replace_draft c th ms \<noteq> []" "butlast (replace_draft c th ms) = butlast ms"
  "role (last (replace_draft c th ms)) = Assistant"
  "content (last (replace_draft c th ms)) = c"
  "thinking_text (last (replace_draft c th ms)) = th"
  by (simp_all add: replace_draft_def thinking_text_def)

text \<open>
  The last two statements of the \<^verbatim>\<open>try\<close> block in the loop body: the new content is
  assigned and the updater is passed to \<^verbatim>\<open>setMessages\<close>.
\<close>

lemma tracks_publish:
  assumes "tracks n B t" and "prefix (content_var t) c1"
  shows "tracks n B (setMessages Replace_draft (t\<lparr>content_var := c1\<rparr>))"
proof (rule tracksI)
  let ?t = "setMessages Replace_draft (t\<lparr>content_var := c1\<rparr>)"
  fix c th
  assume "prefix (content_var ?t) c" and "prefix (thinking_var ?t) th"
  then have c1: "prefix c1 c" and th: "prefix (thinking_var t) th" by simp_all
  from c1 assms(2) have c: "prefix (content_var t) c" by auto
  let ?R = "run_queue (pending ?t) c th (messages ?t)"
  show "?R \<noteq> [] \<and> butlast ?R = B \<and> role (last ?R) = Assistant \<and>
       (content (last ?R) = content_var ?t \<or> content (last ?R) = c) \<and>
       prefix (thinking_text (last ?R)) th \<and>
       (n < length (rendered ?t) \<longrightarrow> grows (messages ?t) ?R)"
  proof (cases "pending t = [] \<and> decision t")
    case True
    then have R: "run_queue (pending ?t) c th (messages t) =
        replace_draft c1 (thinking_var t) (messages t)"
      by (simp add: setMessages_def decided_def decision_def)
    from True tracks_queue [OF assms(1) assms(2) prefix_order.refl]
    have m: "messages t \<noteq> []" "butlast (messages t) = B"
      "content (last (messages t)) = content_var t \<or> content (last (messages t)) = c1"
      "prefix (thinking_text (last (messages t))) (thinking_var t)"
      by simp_all
    from m(3) assms(2) have p: "prefix (content (last (messages t))) c1" by auto
    from grows_replace_draft [OF m(1) p m(4)] m th
    show ?thesis by (simp add: R replace_draft_facts)
  next
    case False
    let ?Q = "run_queue (pending t) c th (messages t)"
    from False have R: "run_queue (pending ?t) c th (messages t) = replace_draft c th ?Q"
      by (auto simp: setMessages_def decided_def decision_def run_queue_append)
    note q = tracks_queue [OF assms(1) c th]
    from q(4) c have p: "prefix (content (last ?Q)) c" by auto
    from grows_replace_draft [OF q(1) p q(5)] have g: "grows ?Q (replace_draft c th ?Q)" .
    have "grows (messages t) (replace_draft c th ?Q)" if "n < length (rendered t)"
      using grows_trans [OF q(6) [OF that] g] .
    with q show ?thesis by (simp add: R replace_draft_facts)
  qed
qed (use tracks_rendered [OF assms(1)] in simp_all)

lemma tracks_decided: "tracks n B t \<Longrightarrow> tracks n B (decided t)"
  by (simp add: tracks_def decided_def)

lemma tracks_handleStop: "tracks n B t \<Longrightarrow> tracks n B (handleStop t)"
  by (simp add: tracks_def handleStop_def)

lemma tracks_finally: "tracks n B t \<Longrightarrow> tracks n B (finally_block t)"
  by (simp add: tracks_def finally_block_def)

lemma successively_drop_snoc:
  assumes "successively P (drop n xs)" and "n < length xs \<Longrightarrow> P (last xs) x"
  shows "successively P (drop n (xs @ [x]))"
proof (cases "n < length xs")
  case True
  with assms show ?thesis by (simp add: successively_append_iff)
next
  case False
  then show ?thesis by (cases "n = length xs") simp_all
qed

lemma tracks_render:
  assumes "tracks n B t"
  shows "tracks n B (render t)"
proof (cases "pending t = []")
  case True
  with assms show ?thesis by (simp add: render_def)
next
  case False
  note s = tracks_shown [OF assms]
  from False have r: "render t = t\<lparr>messages := shown t, rendered := rendered t @ [shown t], pending := []\<rparr>"
    by (simp add: render_def)
  show ?thesis
  proof (rule tracksI)
    from tracks_rendered [OF assms] s(6)
    show "successively grows (drop n (rendered (render t)))"
      by (simp add: r successively_drop_snoc del: drop_append)
    show "last (rendered (render t)) = messages (render t)" by (simp add: r)
    fix c th
    assume "prefix (content_var (render t)) c" and "prefix (thinking_var (render t)) th"
    with s grows_refl [OF s(1)]
    show "run_queue (pending (render t)) c th (messages (render t)) \<noteq> [] \<and>
       butlast (run_queue (pending (render t)) c th (messages (render t))) = B \<and>
       role (last (run_queue (pending (render t)) c th (messages (render t)))) = Assistant \<and>
       (content (last (run_queue (pending (render t)) c th (messages (render t)))) =
          content_var (render t) \<or>
        content (last (run_queue (pending (render t)) c th (messages (render t)))) = c) \<and>
       prefix (thinking_text (last (run_queue (pending (render t)) c th (messages (render t))))) th \<and>
       (n < length (rendered (render t)) \<longrightarrow>
          grows (messages (render t)) (run_queue (pending (render t)) c th (messages (render t))))"
      by (auto simp: r)
  qed
qed

lemma tracks_suspended: "tracks n B t \<Longrightarrow> tracks n B (suspended t)"
  by (simp add: suspended_def tracks_render tracks_decided)

lemma tracks_consume_line: "tracks n B t \<Longrightarrow> tracks n B (consume_line l t)"
proof -
  assume t: "tracks n B t"
  have "tracks n B (setMessages Replace_draft (t\<lparr>thinking_var := th', content_var := c'\<rparr>))"
    if "prefix (thinking_var t) th'" and "prefix (content_var t) c'" for th' c'
    using tracks_publish [OF tracks_thinking [OF t that(1)], of c'] that(2) by simp
  with t show ?thesis
    by (auto simp: consume_line_def Let_def tracks_thinking append_if_truthy_prefix
             split: sum.splits)
qed

lemma tracks_consume_lines: "tracks n B t \<Longrightarrow> tracks n B (consume_lines ls t)"
  by (induction ls arbitrary: t) (simp_all add: tracks_consume_line)

lemma tracks_read_loop: "tracks n B t \<Longrightarrow> tracks n B (fst (read_loop reads t))"
  by (induction reads t rule: read_loop.induct)
     (simp_all add: tracks_suspended tracks_consume_lines tracks_handleStop)

lemma begin_turn_fields:
  "content_var (begin_turn st) = []" "thinking_var (begin_turn st) = []"
  "messages (begin_turn st) = messages st" "rendered (begin_turn st) = rendered st"
  "console (begin_turn st) = console st"
  "pending (begin_turn st) =
     [Value_of (newMessages st @ [\<lparr>role = Assistant, content = [], thinking = None\<rparr>])]"
  "scheduler (begin_turn st) = tl (scheduler st)"
  by (simp_all add: begin_turn_def setMessages_def decided_def page.defs)

lemma tracks_begin_turn: "tracks (length (rendered st)) (newMessages st) (begin_turn st)"
  by (rule tracksI) (simp_all add: begin_turn_fields thinking_text_def)

lemma tracks_try_block:
  "tracks (length (rendered st)) (newMessages st) (fst (try_block fetch ms (begin_turn st)))"
proof -
  let ?t = "suspended (begin_turn st)"
  have t: "tracks (length (rendered st)) (newMessages st) ?t"
    by (rule tracks_suspended [OF tracks_begin_turn])
  have "?t\<lparr>content_var := [], thinking_var := []\<rparr> = ?t"
    by (simp add: begin_turn_fields)
  with t tracks_read_loop [OF t] show ?thesis
    by (simp add: try_block_def split: fetched.splits option.splits)
qed

section \<open>The turn as a whole\<close>

lemma catch_AbortError: "catch_block AbortError t = t"
  by (simp add: catch_block_def not_cancelled_def AbortError_def)

lemma shown_catch:
  "shown (catch_block e t) = (if not_cancelled e then append_marker (shown t) else shown t)"
proof -
  have "shown (t\<lparr>console := console t @ [e]\<rparr>) = shown t"
    by (simp add: shown_def)
  then show ?thesis
    by (simp add: catch_block_def shown_setMessages)
qed

text \<open>
  The transcript after an accepted submission: what React shows for the state the
  \<^verbatim>\<open>try\<close> block left, with the marker appended by the \<^verbatim>\<open>catch\<close> block if it applies.
\<close>

lemma handleSubmit_messages:
  assumes "trim (input st) \<noteq> []" and "\<not> isLoading st"
  shows "messages (handleSubmit fetch st) =
         (case raised fetch st of
            None \<Rightarrow> shown (left_by_try fetch st)
          | Some e \<Rightarrow>
              if not_cancelled e then append_marker (shown (left_by_try fetch st))
              else shown (left_by_try fetch st))"
proof -
  obtain t r where tb: "try_block fetch (newMessages st) (begin_turn st) = (t, r)"
    by (cases "try_block fetch (newMessages st) (begin_turn st)")
  have m: "messages (page.truncate (render x)) = shown x" for x :: turn
    by (simp add: page.defs messages_render)
  from assms tb show ?thesis
    by (cases r) (simp_all add: handleSubmit_def raised_def left_by_try_def m shown_finally shown_catch)
qed

lemma handleSubmit_refused:
  "trim (input st) = [] \<or> isLoading st \<Longrightarrow> handleSubmit fetch st = st"
  by (simp add: handleSubmit_def)

lemma tracks_left_by_try:
  "tracks (length (rendered st)) (newMessages st) (left_by_try fetch st)"
  by (simp add: left_by_try_def tracks_try_block)


section \<open>Reads and lines\<close>

lemma split_newline_no_newline: "0x0A \<notin> set s \<Longrightarrow> split_newline s = [s]"
  by (induction s) auto

lemma startsWith_Nil: "\<not> startsWith [] (ascii ''data:'')"
  by (simp add: startsWith_def ascii_def)

lemma data_lines_Nil: "data_lines [] = []"
  by (simp add: data_lines_def startsWith_Nil)

lemma data_lines_append_newline:
  "data_lines (a @ 0x0A # b) = data_lines a @ data_lines b"
  by (simp add: data_lines_def split_newline_append_newline)

lemma data_lines_snoc_newline: "data_lines (a @ [0x0A]) = data_lines a"
  using data_lines_append_newline [of a "[]"] by (simp add: data_lines_Nil)

lemma data_lines_append:
  assumes "c = [] \<or> last c = 0x0A"
  shows "data_lines (c @ r) = data_lines c @ data_lines r"
proof (cases "c = []")
  case True
  then show ?thesis by (simp add: data_lines_Nil)
next
  case False
  with assms obtain a where c: "c = a @ [0x0A]"
    by (metis append_butlast_last_id)
  show ?thesis
    by (simp add: c data_lines_append_newline data_lines_Nil)
qed

lemma data_lines_concat:
  "\<forall>c \<in> set (butlast chunks). c = [] \<or> last c = 0x0A \<Longrightarrow>
   data_lines (concat chunks) = concat (map data_lines chunks)"
proof (induction chunks)
  case Nil
  show ?case by (simp add: data_lines_Nil)
next
  case (Cons c cs)
  show ?case
  proof (cases "cs = []")
    case True
    then show ?thesis by simp
  next
    case False
    with Cons.prems have c: "c = [] \<or> last c = 0x0A"
      and rest: "\<forall>c \<in> set (butlast cs). c = [] \<or> last c = 0x0A"
      by simp_all
    from Cons.IH [OF rest] data_lines_append [OF c, of "concat cs"]
    show ?thesis by simp
  qed
qed

lemma read_loop_values_thrown: "snd (read_loop (map Value cs) t) = None"
  by (induction cs arbitrary: t) simp_all

lemma read_loop_values_variables:
  "variables t = variables t' \<Longrightarrow>
   variables (fst (read_loop (map Value cs) t)) =
   variables (consume_lines (concat (map data_lines cs)) t')"
proof (induction cs arbitrary: t t')
  case Nil
  then show ?case by (simp add: variables_suspended)
next
  case (Cons c cs)
  from Cons.prems have "variables (suspended t) = variables t'"
    by (simp add: variables_suspended)
  then have "variables (consume_lines (data_lines c) (suspended t)) =
             variables (consume_lines (data_lines c) t')"
    by (rule consume_lines_variables)
  from Cons.IH [OF this] show ?case by (simp add: consume_lines_append)
qed

lemma read_loop_prefix_cong:
  "(\<And>t. read_loop rs t = read_loop rs' t) \<Longrightarrow> read_loop (rs1 @ rs) t = read_loop (rs1 @ rs') t"
proof (induction rs1 arbitrary: t)
  case Nil
  then show ?case by simp
next
  case (Cons r rs1)
  then show ?case by (cases r) simp_all
qed

lemma read_loop_same_lines:
  "data_lines v = data_lines w \<Longrightarrow>
   read_loop (rs1 @ Value v # rs2) t = read_loop (rs1 @ Value w # rs2) t"
  by (rule read_loop_prefix_cong) simp

lemma left_by_try_values:
  "variables (left_by_try (\<lambda>b. Fetched True (Some (map Value cs))) st) =
   variables (consume_lines (concat (map data_lines cs)) (begin_turn st))"
proof -
  have "variables ((suspended (begin_turn st))\<lparr>content_var := [], thinking_var := []\<rparr>) =
        variables (begin_turn st)"
    by (simp add: variables_def begin_turn_fields)
  from read_loop_values_variables [OF this] show ?thesis
    by (simp add: left_by_try_def try_block_def)
qed

lemma raised_values: "raised (\<lambda>b. Fetched True (Some (map Value cs))) st = None"
  by (simp add: raised_def try_block_def read_loop_values_thrown)

lemma begin_turn_variables:
  "variables (begin_turn (st\<lparr>scheduler := ds\<rparr>)) = variables (begin_turn st)"
  by (simp add: variables_def begin_turn_fields)

text \<open>
  The transcript after a stream that ended: the messages sent, and a draft whose content
  is the content string of the loop.
\<close>

lemma handleSubmit_values:
  assumes "trim (input st) \<noteq> []" and "\<not> isLoading st"
  shows "butlast (messages (handleSubmit (\<lambda>b. Fetched True (Some (map Value cs))) st)) =
           newMessages st"
    and "content (last (messages (handleSubmit (\<lambda>b. Fetched True (Some (map Value cs))) st))) =
           snd (variables (consume_lines (concat (map data_lines cs)) (begin_turn st)))"
    and "prefix
           (thinking_text (last (messages (handleSubmit (\<lambda>b. Fetched True (Some (map Value cs))) st))))
           (fst (variables (consume_lines (concat (map data_lines cs)) (begin_turn st))))"
proof -
  let ?f = "\<lambda>b::jsstring. Fetched True (Some (map Value cs))"
  have m: "messages (handleSubmit ?f st) = shown (left_by_try ?f st)"
    using handleSubmit_messages [OF assms, of ?f] by (simp add: raised_values)
  note s = tracks_shown [OF tracks_left_by_try [of st ?f]]
  have v: "content_var (left_by_try ?f st) =
             snd (variables (consume_lines (concat (map data_lines cs)) (begin_turn st)))"
      "thinking_var (left_by_try ?f st) =
             fst (variables (consume_lines (concat (map data_lines cs)) (begin_turn st)))"
    using left_by_try_values [of cs st] by (simp_all add: variables_def)
  from s(2) show "butlast (messages (handleSubmit ?f st)) = newMessages st"
    by (simp add: m)
  from s(4) v(1) show "content (last (messages (handleSubmit ?f st))) =
           snd (variables (consume_lines (concat (map data_lines cs)) (begin_turn st)))"
    by (simp add: m)
  from s(5) v(2) show "prefix (thinking_text (last (messages (handleSubmit ?f st))))
           (fst (variables (consume_lines (concat (map data_lines cs)) (begin_turn st))))"
    by (simp add: m)
qed

section \<open>What React shows does not depend on when it renders\<close>

text \<open>
  A line that is not half applied either changes nothing, or appends to the variables and
  passes the updater to \<^verbatim>\<open>setMessages\<close>; which of the two, and what it appends, is up to
  the line alone.
\<close>

lemma consume_line_cases:
  assumes "\<not> half_applied l"
  shows "(\<forall>t. consume_line l t = t) \<or>
         (\<exists>x y. \<forall>t. consume_line l t =
            setMessages Replace_draft
              (t\<lparr>thinking_var := thinking_var t @ x, content_var := content_var t @ y\<rparr>))"
proof -
  have same: "t\<lparr>thinking_var := thinking_var t\<rparr> = t" for t :: turn by simp
  note a = append_if_truthy_append
  show ?thesis
  proof (cases "trim (slice_from 5 l) = ascii ''[DONE]''")
    case True
    then show ?thesis by (simp add: consume_line_def)
  next
    case d: False
    show ?thesis
    proof (cases "JSON_parse (trim (slice_from 5 l))")
      case (Inl e)
      with d show ?thesis by (simp add: consume_line_def)
    next
      case (Inr json)
      show ?thesis
      proof (cases "get_prop json (ascii ''thinking'')")
        case (Inl e)
        with d Inr show ?thesis by (simp add: consume_line_def)
      next
        case th: (Inr th)
        show ?thesis
        proof (cases "append_if_truthy th []")
          case (Inl e)
          then have "append_if_truthy th s = Inl e" for s
            using a [of th s] by simp
          with d Inr th show ?thesis by (simp add: consume_line_def)
        next
          case x: (Inr x)
          then have x': "append_if_truthy th s = Inr (s @ x)" for s
            using a [of th s] by simp
          show ?thesis
          proof (cases "get_prop json (ascii ''content'')")
            case (Inl e)
            with d Inr th x assms have "x = []"
              by (simp add: half_applied_def consume_line_def blank_def page.defs)
            with d Inr th x' Inl same show ?thesis
              by (simp add: consume_line_def)
          next
            case co: (Inr co)
            show ?thesis
            proof (cases "append_if_truthy co []")
              case (Inl e)
              then have y': "append_if_truthy co s = Inl e" for s
                using a [of co s] by simp
              with d Inr th x co assms have "x = []"
                by (simp add: half_applied_def consume_line_def blank_def page.defs)
              with d Inr th x' co y' same show ?thesis
                by (simp add: consume_line_def)
            next
              case y: (Inr y)
              then have y': "append_if_truthy co s = Inr (s @ y)" for s
                using a [of co s] by simp
              from d Inr th x' co y'
              have "\<forall>t. consume_line l t =
                  setMessages Replace_draft
                    (t\<lparr>thinking_var := thinking_var t @ x, content_var := content_var t @ y\<rparr>)"
                by (simp add: consume_line_def)
              then show ?thesis by blast
            qed
          qed
        qed
      qed
    qed
  qed
qed

lemma shown_published:
  assumes "tracks n B t"
  shows "shown (setMessages Replace_draft
                  (t\<lparr>thinking_var := thinking_var t @ x, content_var := content_var t @ y\<rparr>)) =
         B @ [\<lparr>role = Assistant, content = content_var t @ y, thinking = Some (thinking_var t @ x)\<rparr>]"
proof -
  have "shown (t\<lparr>thinking_var := thinking_var t @ x, content_var := content_var t @ y\<rparr>) =
        run_queue (pending t) (content_var t @ y) (thinking_var t @ x) (messages t)"
    by (simp add: shown_def)
  with tracks_queue(2) [OF assms, of "content_var t @ y" "thinking_var t @ x"] show ?thesis
    by (simp add: shown_setMessages replace_draft_def)
qed

lemma shown_consume_line:
  assumes "tracks n B t" and "tracks n' B t'" and "variables t = variables t'"
    and "shown t = shown t'" and "\<not> half_applied l"
  shows "shown (consume_line l t) = shown (consume_line l t')"
proof -
  from consume_line_cases [OF assms(5)] show ?thesis
  proof
    assume "\<forall>t. consume_line l t = t"
    with assms(4) show ?thesis by simp
  next
    assume "\<exists>x y. \<forall>t. consume_line l t =
            setMessages Replace_draft
              (t\<lparr>thinking_var := thinking_var t @ x, content_var := content_var t @ y\<rparr>)"
    then obtain x y where "\<And>t. consume_line l t =
            setMessages Replace_draft
              (t\<lparr>thinking_var := thinking_var t @ x, content_var := content_var t @ y\<rparr>)"
      by blast
    with shown_published [OF assms(1), where x = x and y = y]
      shown_published [OF assms(2), where x = x and y = y] assms(3)
    show ?thesis by (simp add: variables_def)
  qed
qed

lemma shown_consume_lines:
  assumes "tracks n B t" and "tracks n' B t'" and "variables t = variables t'"
    and "shown t = shown t'" and "\<forall>l \<in> set ls. \<not> half_applied l"
  shows "shown (consume_lines ls t) = shown (consume_lines ls t')"
  using assms
proof (induction ls arbitrary: t t')
  case Nil
  then show ?case by simp
next
  case (Cons l ls)
  from Cons.prems(5) have l: "\<not> half_applied l" and ls: "\<forall>l \<in> set ls. \<not> half_applied l"
    by simp_all
  from Cons.IH [OF tracks_consume_line [OF Cons.prems(1)] tracks_consume_line [OF Cons.prems(2)]
      consume_line_variables [OF Cons.prems(3)]
      shown_consume_line [OF Cons.prems(1) Cons.prems(2) Cons.prems(3) Cons.prems(4) l] ls]
  show ?case by simp
qed

lemma shown_read_loop:
  assumes "tracks n B t" and "tracks n' B t'" and "variables t = variables t'"
    and "shown t = shown t'" and "\<forall>l \<in> set (concat (map data_lines cs)). \<not> half_applied l"
  shows "shown (fst (read_loop (map Value cs) t)) =
         shown (consume_lines (concat (map data_lines cs)) t')"
  using assms
proof (induction cs arbitrary: t t')
  case Nil
  then show ?case by (simp add: shown_suspended)
next
  case (Cons c cs)
  from Cons.prems(5) have c: "\<forall>l \<in> set (data_lines c). \<not> half_applied l"
    and cs: "\<forall>l \<in> set (concat (map data_lines cs)). \<not> half_applied l"
    by simp_all
  have t: "tracks n B (suspended t)" by (rule tracks_suspended [OF Cons.prems(1)])
  have v: "variables (suspended t) = variables t'"
    using Cons.prems(3) by (simp add: variables_suspended)
  have s: "shown (suspended t) = shown t'"
    using Cons.prems(4) by (simp add: shown_suspended)
  from Cons.IH [OF tracks_consume_lines [OF t] tracks_consume_lines [OF Cons.prems(2)]
      consume_lines_variables [OF v] shown_consume_lines [OF t Cons.prems(2) v s c] cs]
  show ?case by (simp add: consume_lines_append)
qed

text \<open>
  The transcript after a stream that ended, none of whose lines is half applied: what
  React would show if it rendered once at the end.
\<close>

lemma handleSubmit_values_shown:
  assumes "trim (input st) \<noteq> []" and "\<not> isLoading st"
    and "\<forall>l \<in> set (concat (map data_lines cs)). \<not> half_applied l"
  shows "messages (handleSubmit (\<lambda>b. Fetched True (Some (map Value cs))) st) =
         shown (consume_lines (concat (map data_lines cs)) (begin_turn (st\<lparr>scheduler := ds\<rparr>)))"
proof -
  let ?f = "\<lambda>b::jsstring. Fetched True (Some (map Value cs))"
  let ?t = "(suspended (begin_turn st))\<lparr>content_var := [], thinking_var := []\<rparr>"
  let ?t' = "begin_turn (st\<lparr>scheduler := ds\<rparr>)"
  have e: "?t = suspended (begin_turn st)"
    by (simp add: begin_turn_fields)
  have n: "newMessages (st\<lparr>scheduler := ds\<rparr>) = newMessages st"
    by (simp add: newMessages_def userMessage_def)
  have m: "messages (handleSubmit ?f st) = shown (left_by_try ?f st)"
    using handleSubmit_messages [OF assms(1,2), of ?f] by (simp add: raised_values)
  have t: "tracks (length (rendered st)) (newMessages st) ?t"
    unfolding e by (rule tracks_suspended [OF tracks_begin_turn])
  have t': "tracks (length (rendered (st\<lparr>scheduler := ds\<rparr>))) (newMessages st) ?t'"
    using tracks_begin_turn [of "st\<lparr>scheduler := ds\<rparr>"] by (simp add: n)
  have v: "variables ?t = variables ?t'"
    by (simp add: variables_def begin_turn_fields)
  have i: "shown (begin_turn x) =
      newMessages x @ [\<lparr>role = Assistant, content = [], thinking = None\<rparr>]" for x
    by (simp add: shown_def begin_turn_fields)
  have s: "shown ?t = shown ?t'"
    unfolding e shown_suspended i n ..
  from shown_read_loop [OF t t' v s assms(3)] m show ?thesis
    by (simp add: left_by_try_def try_block_def)
qed

section \<open>The page does not reassemble lines either\<close>

text \<open>
  Claim C3, as the code has it.  The page's read loop buffers nothing between reads: every
  read is split on newlines by itself and only its segments that start with \<^verbatim>\<open>data:\<close>
  are consumed, so the thinking and content strings after a sequence of reads are those
  after the \<^verbatim>\<open>data:\<close> lines of its reads, taken one by one in their order.  Whenever
  every chunk but the last is empty or ends with a newline, consuming the chunks one at a
  time gives the same thinking and content strings as consuming the whole stream as one
  read, and a final transcript with the same messages before the draft and the same draft
  content, whatever React decides in the two runs (\<open>ds\<close> is any scheduler for the second);
  the two final transcripts are the same altogether when no line is half applied.
\<close>

theorem page_split_on_line_ends:
  "variables (fst (read_loop (map Value chunks) t)) =
     variables (consume_lines (concat (map data_lines chunks)) (t\<lparr>scheduler := ds\<rparr>)) \<and>
   snd (read_loop (map Value chunks) t) = None \<and>
   ((\<forall>c \<in> set (butlast chunks). c = [] \<or> last c = 0x0A) \<longrightarrow>
      variables (fst (read_loop (map Value chunks) t)) =
        variables (fst (read_loop [Value (concat chunks)] (t\<lparr>scheduler := ds\<rparr>))) \<and>
      butlast (messages (handleSubmit (\<lambda>b. Fetched True (Some (map Value chunks))) st)) =
        butlast (messages (handleSubmit (\<lambda>b. Fetched True (Some [Value (concat chunks)]))
                   (st\<lparr>scheduler := ds\<rparr>))) \<and>
      content (last (messages (handleSubmit (\<lambda>b. Fetched True (Some (map Value chunks))) st))) =
        content (last (messages (handleSubmit (\<lambda>b. Fetched True (Some [Value (concat chunks)]))
                   (st\<lparr>scheduler := ds\<rparr>)))) \<and>
      ((\<forall>l \<in> set (data_lines (concat chunks)). \<not> half_applied l) \<longrightarrow>
         messages (handleSubmit (\<lambda>b. Fetched True (Some (map Value chunks))) st) =
         messages (handleSubmit (\<lambda>b. Fetched True (Some [Value (concat chunks)]))
                    (st\<lparr>scheduler := ds\<rparr>))))"
proof (intro conjI impI)
  have v: "variables t = variables (t\<lparr>scheduler := ds\<rparr>)"
    by (simp add: variables_def)
  show 1: "variables (fst (read_loop (map Value chunks) t)) =
     variables (consume_lines (concat (map data_lines chunks)) (t\<lparr>scheduler := ds\<rparr>))"
    by (rule read_loop_values_variables [OF v])
  show "snd (read_loop (map Value chunks) t) = None"
    by (rule read_loop_values_thrown)
  assume al: "\<forall>c \<in> set (butlast chunks). c = [] \<or> last c = 0x0A"
  have "variables (fst (read_loop (map Value [concat chunks]) (t\<lparr>scheduler := ds\<rparr>))) =
        variables (consume_lines (concat (map data_lines [concat chunks])) (t\<lparr>scheduler := ds\<rparr>))"
    by (rule read_loop_values_variables) simp
  with 1 show "variables (fst (read_loop (map Value chunks) t)) =
        variables (fst (read_loop [Value (concat chunks)] (t\<lparr>scheduler := ds\<rparr>)))"
    by (simp add: data_lines_concat [OF al])
  let ?split = "\<lambda>b::jsstring. Fetched True (Some (map Value chunks))"
  let ?whole = "\<lambda>b::jsstring. Fetched True (Some (map Value [concat chunks]))"
  let ?st = "st\<lparr>scheduler := ds\<rparr>"
  have both: "butlast (messages (handleSubmit ?split st)) = butlast (messages (handleSubmit ?whole ?st)) \<and>
      content (last (messages (handleSubmit ?split st))) =
      content (last (messages (handleSubmit ?whole ?st)))"
  proof (cases "trim (input st) = [] \<or> isLoading st")
    case True
    then show ?thesis by (simp add: handleSubmit_def)
  next
    case False
    then have a: "trim (input st) \<noteq> []" "\<not> isLoading st"
      and a': "trim (input ?st) \<noteq> []" "\<not> isLoading ?st"
      by simp_all
    have n: "newMessages ?st = newMessages st"
      by (simp add: newMessages_def userMessage_def)
    have "variables (consume_lines (concat (map data_lines [concat chunks])) (begin_turn ?st)) =
          variables (consume_lines (concat (map data_lines chunks)) (begin_turn st))"
      using consume_lines_variables [OF begin_turn_variables [of ds st]]
      by (simp add: data_lines_concat [OF al])
    with handleSubmit_values(1,2) [OF a, of chunks] handleSubmit_values(1,2) [OF a', of "[concat chunks]"]
    show ?thesis by (simp add: n)
  qed
  from both show "butlast (messages (handleSubmit ?split st)) =
        butlast (messages (handleSubmit (\<lambda>b. Fetched True (Some [Value (concat chunks)])) ?st))"
    by simp
  from both show "content (last (messages (handleSubmit ?split st))) =
        content (last (messages (handleSubmit (\<lambda>b. Fetched True (Some [Value (concat chunks)])) ?st)))"
    by simp
  assume h: "\<forall>l \<in> set (data_lines (concat chunks)). \<not> half_applied l"
  have "messages (handleSubmit ?split st) = messages (handleSubmit ?whole ?st)"
  proof (cases "trim (input st) = [] \<or> isLoading st")
    case True
    then show ?thesis by (simp add: handleSubmit_def)
  next
    case False
    then have a: "trim (input st) \<noteq> []" "\<not> isLoading st"
      and a': "trim (input ?st) \<noteq> []" "\<not> isLoading ?st"
      by simp_all
    from h have h1: "\<forall>l \<in> set (concat (map data_lines chunks)). \<not> half_applied l"
      and h2: "\<forall>l \<in> set (concat (map data_lines [concat chunks])). \<not> half_applied l"
      by (simp_all add: data_lines_concat [OF al])
    from handleSubmit_values_shown [OF a h1, of ds] handleSubmit_values_shown [OF a' h2, of ds]
    show ?thesis by (simp add: data_lines_concat [OF al])
  qed
  then show "messages (handleSubmit ?split st) =
         messages (handleSubmit (\<lambda>b. Fetched True (Some [Value (concat chunks)])) ?st)"
    by simp
qed

theorem page_split_on_line_ends_witness:
  \<open>last (ascii ''data: {"thinking":"Let"}\<newline>\<newline>'') = 0x0A \<and>
   variables (fst (read_loop
     [Value (ascii ''data: {"thinking":"Let"}\<newline>\<newline>''),
      Value (ascii ''data: {"content":"Hi!"}\<newline>\<newline>'')]
     (begin_turn (initial_page\<lparr>input := ascii ''hi''\<rparr>)))) =
   variables (fst (read_loop
     [Value (ascii ''data: {"thinking":"Let"}\<newline>\<newline>'' @
             ascii ''data: {"content":"Hi!"}\<newline>\<newline>'')]
     ((begin_turn (initial_page\<lparr>input := ascii ''hi''\<rparr>))\<lparr>scheduler := eager\<rparr>))) \<and>
   variables (fst (read_loop
     [Value (ascii ''data: {"thinking":"Let"}\<newline>\<newline>''),
      Value (ascii ''data: {"content":"Hi!"}\<newline>\<newline>'')]
     (begin_turn (initial_page\<lparr>input := ascii ''hi''\<rparr>)))) = (ascii ''Let'', ascii ''Hi!'') \<and>
   content (last (messages (handleSubmit
     (\<lambda>b. Fetched True (Some [Value (ascii ''data: {"thinking":"Let"}\<newline>\<newline>''),
                              Value (ascii ''data: {"content":"Hi!"}\<newline>\<newline>'')]))
     (initial_page\<lparr>input := ascii ''hi''\<rparr>)))) =
   content (last (messages (handleSubmit
     (\<lambda>b. Fetched True (Some [Value (ascii ''data: {"thinking":"Let"}\<newline>\<newline>'' @
                                     ascii ''data: {"content":"Hi!"}\<newline>\<newline>'')]))
     (initial_page\<lparr>input := ascii ''hi'', scheduler := eager\<rparr>)))) \<and>
   messages (handleSubmit
     (\<lambda>b. Fetched True (Some [Value (ascii ''data: {"thinking":"Let"}\<newline>\<newline>''),
                              Value (ascii ''data: {"content":"Hi!"}\<newline>\<newline>'')]))
     (initial_page\<lparr>input := ascii ''hi''\<rparr>)) =
   [\<lparr>role = User, content = ascii ''hi'', thinking = None\<rparr>,
    \<lparr>role = Assistant, content = ascii ''Hi!'', thinking = Some (ascii ''Let'')\<rparr>] \<and>
   messages (handleSubmit
     (\<lambda>b. Fetched True (Some [Value (ascii ''data: {"thinking":"Let"}\<newline>\<newline>'' @
                                     ascii ''data: {"content":"Hi!"}\<newline>\<newline>'')]))
     (initial_page\<lparr>input := ascii ''hi'', scheduler := eager\<rparr>)) =
   [\<lparr>role = User, content = ascii ''hi'', thinking = None\<rparr>,
    \<lparr>role = Assistant, content = ascii ''Hi!'', thinking = Some (ascii ''Let'')\<rparr>]\<close>
proof -
  let ?a = \<open>ascii ''data: {"thinking":"Let"}\<newline>\<newline>''\<close>
  let ?b = \<open>ascii ''data: {"content":"Hi!"}\<newline>\<newline>''\<close>
  let ?st = \<open>initial_page\<lparr>input := ascii ''hi''\<rparr>\<close>
  have h: "\<forall>c \<in> set (butlast [?a, ?b]). c = [] \<or> last c = 0x0A"
    by (simp add: ascii_def)
  have l: "last ?a = 0x0A"
    by (simp add: ascii_def)
  have v: "variables (fst (read_loop [Value ?a, Value ?b] (begin_turn ?st))) =
           (ascii ''Let'', ascii ''Hi!'')"
    by code_simp
  have m: \<open>messages (handleSubmit (\<lambda>b. Fetched True (Some [Value ?a, Value ?b])) ?st) =
   [\<lparr>role = User, content = ascii ''hi'', thinking = None\<rparr>,
    \<lparr>role = Assistant, content = ascii ''Hi!'', thinking = Some (ascii ''Let'')\<rparr>]\<close>
    by code_simp
  have n: "\<forall>l \<in> set (data_lines (concat [?a, ?b])). \<not> half_applied l"
    by code_simp
  from page_split_on_line_ends
    [where chunks = "[?a, ?b]" and t = "begin_turn ?st" and ds = eager and st = ?st] h n
  have "variables (fst (read_loop (map Value [?a, ?b]) (begin_turn ?st))) =
        variables (fst (read_loop [Value (concat [?a, ?b])] ((begin_turn ?st)\<lparr>scheduler := eager\<rparr>)))"
    and "messages (handleSubmit (\<lambda>b. Fetched True (Some (map Value [?a, ?b]))) ?st) =
         messages (handleSubmit (\<lambda>b. Fetched True (Some [Value (concat [?a, ?b])]))
           (?st\<lparr>scheduler := eager\<rparr>))"
    by blast+
  with l v m show ?thesis by simp
qed

text \<open>
  The claim as the specification words it fails: an event cut inside its payload is lost.
  The first half does not parse, the second half does not start with \<^verbatim>\<open>data:\<close>.  It is
  so whether React renders as soon as it can or only at the end.
\<close>

theorem page_split_inside_token_counterexample:
  \<open>messages (handleSubmit
     (\<lambda>b. Fetched True (Some [Value (ascii ''data: {"cont''),
                              Value (ascii ''ent":"Hi"}\<newline>\<newline>'')]))
     (initial_page\<lparr>input := ascii ''hi''\<rparr>)) =
   [\<lparr>role = User, content = ascii ''hi'', thinking = None\<rparr>,
    \<lparr>role = Assistant, content = [], thinking = None\<rparr>] \<and>
   messages (handleSubmit
     (\<lambda>b. Fetched True (Some [Value (ascii ''data: {"cont'' @ ascii ''ent":"Hi"}\<newline>\<newline>'')]))
     (initial_page\<lparr>input := ascii ''hi''\<rparr>)) =
   [\<lparr>role = User, content = ascii ''hi'', thinking = None\<rparr>,
    \<lparr>role = Assistant, content = ascii ''Hi'', thinking = Some []\<rparr>] \<and>
   messages (handleSubmit
     (\<lambda>b. Fetched True (Some [Value (ascii ''data: {"cont''),
                              Value (ascii ''ent":"Hi"}\<newline>\<newline>'')]))
     (initial_page\<lparr>input := ascii ''hi'', scheduler := eager\<rparr>)) =
   [\<lparr>role = User, content = ascii ''hi'', thinking = None\<rparr>,
    \<lparr>role = Assistant, content = [], thinking = None\<rparr>] \<and>
   messages (handleSubmit
     (\<lambda>b. Fetched True (Some [Value (ascii ''data: {"cont'' @ ascii ''ent":"Hi"}\<newline>\<newline>'')]))
     (initial_page\<lparr>input := ascii ''hi'', scheduler := eager\<rparr>)) =
   [\<lparr>role = User, content = ascii ''hi'', thinking = None\<rparr>,
    \<lparr>role = Assistant, content = ascii ''Hi'', thinking = Some []\<rparr>]\<close>
  by code_simp

section \<open>The terminal sentinel\<close>

lemma consume_sentinel: "consume_line (ascii ''data: [DONE]'') t = t"
proof -
  have "trim (slice_from 5 (ascii ''data: [DONE]'')) = ascii ''[DONE]''"
    by code_simp
  then show ?thesis by (simp add: consume_line_def)
qed

lemma data_lines_sentinel: "data_lines (sse_done @ b) = ascii ''data: [DONE]'' # data_lines b"
proof -
  have s: "sse_done = ascii ''data: [DONE]'' @ [0x0A, 0x0A]"
    by (simp add: sse_done_def ascii_def)
  have d: "data_lines (ascii ''data: [DONE]'') = [ascii ''data: [DONE]'']"
    by code_simp
  have "data_lines (sse_done @ b) = data_lines (ascii ''data: [DONE]'' @ 0x0A # ([] @ 0x0A # b))"
    by (simp add: s)
  also have "\<dots> = data_lines (ascii ''data: [DONE]'') @ data_lines [] @ data_lines b"
    by (simp only: data_lines_append_newline)
  finally show ?thesis by (simp add: d data_lines_Nil)
qed

text \<open>
  Claim C2, as the code has it.  The sentinel is compared as raw text before any JSON
  decoding and skipped (\<^verbatim>\<open>continue\<close>): it is never applied to the draft, and it does not
  end consumption.  A stream with a sentinel event in it is consumed exactly as the same
  stream without that event, so events after the sentinel are applied like any other; the
  loop ends when the reader reports the end of the stream or rejects.
\<close>

theorem sentinel_is_skipped:
  "consume_line (ascii ''data: [DONE]'') t = t \<and>
   ((a = [] \<or> last a = 0x0A) \<longrightarrow>
      read_loop (earlier @ Value (a @ sse_done @ b) # later) t =
      read_loop (earlier @ Value (a @ b) # later) t)"
proof (intro conjI impI)
  show "consume_line (ascii ''data: [DONE]'') t = t" by (rule consume_sentinel)
next
  assume a: "a = [] \<or> last a = 0x0A"
  have "read_loop (Value (a @ sse_done @ b) # later) t' = read_loop (Value (a @ b) # later) t'" for t'
    by (simp add: data_lines_append [OF a] data_lines_sentinel consume_lines_append
                  consume_sentinel)
  then show "read_loop (earlier @ Value (a @ sse_done @ b) # later) t =
      read_loop (earlier @ Value (a @ b) # later) t"
    by (rule read_loop_prefix_cong)
qed

theorem sentinel_is_skipped_witness:
  \<open>last (ascii ''data: {"content":"Hi"}\<newline>\<newline>'') = 0x0A \<and>
   read_loop [Value (ascii ''data: {"content":"Hi"}\<newline>\<newline>'' @ sse_done @
                     ascii ''data: {"content":" there"}\<newline>\<newline>'')]
     (begin_turn (initial_page\<lparr>input := ascii ''hi''\<rparr>)) =
   read_loop [Value (ascii ''data: {"content":"Hi"}\<newline>\<newline>'' @
                     ascii ''data: {"content":" there"}\<newline>\<newline>'')]
     (begin_turn (initial_page\<lparr>input := ascii ''hi''\<rparr>)) \<and>
   content_var (fst (read_loop
       [Value (ascii ''data: {"content":"Hi"}\<newline>\<newline>'' @ sse_done @
               ascii ''data: {"content":" there"}\<newline>\<newline>'')]
       (begin_turn (initial_page\<lparr>input := ascii ''hi''\<rparr>)))) = ascii ''Hi there''\<close>
proof -
  have h: \<open>last (ascii ''data: {"content":"Hi"}\<newline>\<newline>'') = 0x0A\<close>
    by (simp add: ascii_def)
  have c: \<open>content_var (fst (read_loop
       [Value (ascii ''data: {"content":"Hi"}\<newline>\<newline>'' @ sse_done @
               ascii ''data: {"content":" there"}\<newline>\<newline>'')]
       (begin_turn (initial_page\<lparr>input := ascii ''hi''\<rparr>)))) = ascii ''Hi there''\<close>
    by code_simp
  from h sentinel_is_skipped
    [where a = \<open>ascii ''data: {"content":"Hi"}\<newline>\<newline>''\<close> and earlier = "[]"
       and b = \<open>ascii ''data: {"content":" there"}\<newline>\<newline>''\<close> and later = "[]"
       and t = \<open>begin_turn (initial_page\<lparr>input := ascii ''hi''\<rparr>)\<close>]
  have e: \<open>read_loop [Value (ascii ''data: {"content":"Hi"}\<newline>\<newline>'' @ sse_done @
                     ascii ''data: {"content":" there"}\<newline>\<newline>'')]
     (begin_turn (initial_page\<lparr>input := ascii ''hi''\<rparr>)) =
   read_loop [Value (ascii ''data: {"content":"Hi"}\<newline>\<newline>'' @
                     ascii ''data: {"content":" there"}\<newline>\<newline>'')]
     (begin_turn (initial_page\<lparr>input := ascii ''hi''\<rparr>))\<close>
    by (simp del: read_loop.simps)
  show ?thesis
    by (intro conjI) (rule h, rule e, rule c)
qed

text \<open>
  The claim as the specification words it fails: an event that arrives after the sentinel,
  here in a later read, is applied to the draft.
\<close>

theorem event_after_sentinel_counterexample:
  \<open>messages (handleSubmit
     (\<lambda>b. Fetched True (Some [Value (ascii ''data: [DONE]\<newline>\<newline>''),
                              Value (ascii ''data: {"content":"late"}\<newline>\<newline>'')]))
     (initial_page\<lparr>input := ascii ''hi''\<rparr>)) =
   [\<lparr>role = User, content = ascii ''hi'', thinking = None\<rparr>,
    \<lparr>role = Assistant, content = ascii ''late'', thinking = Some []\<rparr>] \<and>
   messages (handleSubmit
     (\<lambda>b. Fetched True (Some [Value (ascii ''data: [DONE]\<newline>\<newline>''),
                              Value (ascii ''data: {"content":"late"}\<newline>\<newline>'')]))
     (initial_page\<lparr>input := ascii ''hi'', scheduler := eager\<rparr>)) =
   [\<lparr>role = User, content = ascii ''hi'', thinking = None\<rparr>,
    \<lparr>role = Assistant, content = ascii ''late'', thinking = Some []\<rparr>]\<close>
  by code_simp


section \<open>The draft only grows\<close>

lemma pending_setMessages: "pending (setMessages u t) \<noteq> []"
  by (simp add: setMessages_def)

lemma rendered_marked:
  "rendered (render (finally_block (catch_block e t))) =
   (if not_cancelled e then rendered t @ [append_marker (shown t)]
    else rendered (render (finally_block t)))"
proof (cases "not_cancelled e")
  case True
  let ?x = "setMessages Append_marker (t\<lparr>console := console t @ [e]\<rparr>)"
  have p: "pending (finally_block ?x) \<noteq> []"
    using pending_setMessages [of Append_marker "t\<lparr>console := console t @ [e]\<rparr>"]
    by (simp add: finally_block_def)
  have s: "shown (finally_block ?x) = append_marker (shown t)"
    using shown_catch [of e t] True by (simp add: shown_finally catch_block_def)
  have r: "rendered (finally_block ?x) = rendered t"
    by (simp add: finally_block_def)
  from True p s r show ?thesis
    by (simp add: catch_block_def render_def)
next
  case False
  then show ?thesis by (simp add: catch_block_def)
qed

lemma grows_to_marked:
  assumes "tracks n B t"
  shows "successively grows (drop n (rendered t @ [append_marker (shown t)]))"
proof (rule successively_drop_snoc)
  show "successively grows (drop n (rendered t))"
    by (rule tracks_rendered(1) [OF assms])
  assume n: "n < length (rendered t)"
  note s = tracks_shown [OF assms]
  from grows_trans [OF s(6) [OF n] grows_append_marker [OF s(1)]] tracks_rendered(2) [OF assms n]
  show "grows (last (rendered t)) (append_marker (shown t))"
    by simp
qed

text \<open>
  Claim C7.  During one turn (one call of \<^verbatim>\<open>handleSubmit\<close>, whatever the relay answers,
  however the stream ends and whenever React renders) every transcript the component is
  rendered with has, in its draft message, a content string and a thinking string of
  which the strings of the transcript rendered before it are prefixes; the messages
  before the draft do not change.  The error marker of the \<^verbatim>\<open>catch\<close> block is an append
  too.
\<close>

theorem draft_is_append_only:
  "successively grows (drop (length (rendered st)) (rendered (handleSubmit fetch st)))"
proof (cases "trim (input st) = [] \<or> isLoading st")
  case True
  then show ?thesis by (simp add: handleSubmit_def)
next
  case False
  obtain t r where tb: "try_block fetch (newMessages st) (begin_turn st) = (t, r)"
    by (cases "try_block fetch (newMessages st) (begin_turn st)")
  from tracks_try_block [of st fetch "newMessages st"] tb
  have t: "tracks (length (rendered st)) (newMessages st) t" by simp
  have plain: "successively grows (drop (length (rendered st)) (rendered (render (finally_block t))))"
    by (rule tracks_rendered(1) [OF tracks_render [OF tracks_finally [OF t]]])
  have tr: "rendered (page.truncate x) = rendered x" for x :: turn
    by (simp add: page.defs)
  show ?thesis
  proof (cases r)
    case None
    with False tb plain show ?thesis
      by (simp add: handleSubmit_def tr)
  next
    case (Some e)
    with False tb plain grows_to_marked [OF t] show ?thesis
      by (simp add: handleSubmit_def tr rendered_marked)
  qed
qed

theorem draft_is_append_only_witness:
  \<open>rendered (handleSubmit
     (\<lambda>b. Fetched True (Some [Value (ascii ''data: {"thinking":"Let"}\<newline>\<newline>''),
                              Value (ascii ''data: {"thinking":" me think"}\<newline>\<newline>'' @
                                     ascii ''data: {"content":"Hi!"}\<newline>\<newline>'' @
                                     ascii ''data: [DONE]\<newline>\<newline>'')]))
     (initial_page\<lparr>input := ascii ''hi'', scheduler := eager\<rparr>)) =
   [[\<lparr>role = User, content = ascii ''hi'', thinking = None\<rparr>,
     \<lparr>role = Assistant, content = [], thinking = None\<rparr>],
    [\<lparr>role = User, content = ascii ''hi'', thinking = None\<rparr>,
     \<lparr>role = Assistant, content = [], thinking = Some (ascii ''Let'')\<rparr>],
    [\<lparr>role = User, content = ascii ''hi'', thinking = None\<rparr>,
     \<lparr>role = Assistant, content = ascii ''Hi!'', thinking = Some (ascii ''Let me think'')\<rparr>]] \<and>
   successively grows
   [[\<lparr>role = User, content = ascii ''hi'', thinking = None\<rparr>,
     \<lparr>role = Assistant, content = [], thinking = None\<rparr>],
    [\<lparr>role = User, content = ascii ''hi'', thinking = None\<rparr>,
     \<lparr>role = Assistant, content = [], thinking = Some (ascii ''Let'')\<rparr>],
    [\<lparr>role = User, content = ascii ''hi'', thinking = None\<rparr>,
     \<lparr>role = Assistant, content = ascii ''Hi!'', thinking = Some (ascii ''Let me think'')\<rparr>]]\<close>
proof -
  let ?st = \<open>initial_page\<lparr>input := ascii ''hi'', scheduler := eager\<rparr>\<close>
  let ?f = \<open>\<lambda>b::jsstring. Fetched True (Some [Value (ascii ''data: {"thinking":"Let"}\<newline>\<newline>''),
                              Value (ascii ''data: {"thinking":" me think"}\<newline>\<newline>'' @
                                     ascii ''data: {"content":"Hi!"}\<newline>\<newline>'' @
                                     ascii ''data: [DONE]\<newline>\<newline>'')])\<close>
  have r: \<open>rendered (handleSubmit ?f ?st) =
   [[\<lparr>role = User, content = ascii ''hi'', thinking = None\<rparr>,
     \<lparr>role = Assistant, content = [], thinking = None\<rparr>],
    [\<lparr>role = User, content = ascii ''hi'', thinking = None\<rparr>,
     \<lparr>role = Assistant, content = [], thinking = Some (ascii ''Let'')\<rparr>],
    [\<lparr>role = User, content = ascii ''hi'', thinking = None\<rparr>,
     \<lparr>role = Assistant, content = ascii ''Hi!'', thinking = Some (ascii ''Let me think'')\<rparr>]]\<close>
    by code_simp
  have l: "length (rendered ?st) = 0" by (simp add: initial_page_def)
  from draft_is_append_only [of ?st ?f] r l show ?thesis by simp
qed

section \<open>Cancellation\<close>

lemma read_loop_stopped:
  "read_loop (map Value cs @ Stopped # rest) t =
   (handleStop (fst (read_loop (map Value cs) t)), Some AbortError)"
  by (induction cs arbitrary: t) simp_all

lemma finally_handleStop: "finally_block (handleStop t) = finally_block t"
  by (simp add: finally_block_def handleStop_def)

lemma handleSubmit_stopped:
  "handleSubmit (\<lambda>b. Fetched True (Some (map Value cs @ Stopped # rest))) st =
   handleSubmit (\<lambda>b. Fetched True (Some (map Value cs))) st"
proof -
  let ?t = "(suspended (begin_turn st))\<lparr>content_var := [], thinking_var := []\<rparr>"
  obtain T where T: "read_loop (map Value cs) ?t = (T, None)"
    using read_loop_values_thrown [of cs ?t] by (cases "read_loop (map Value cs) ?t") simp
  then show ?thesis
    by (simp add: handleSubmit_def try_block_def read_loop_stopped catch_AbortError
                  finally_handleStop)
qed

lemma read_loop_console: "console (fst (read_loop reads t)) = console t"
  by (induction reads t rule: read_loop.induct)
     (simp_all add: consume_lines_page handleStop_def)

lemma try_block_console:
  "console (fst (try_block fetch ms (begin_turn st))) = console st"
  by (simp add: try_block_def read_loop_console begin_turn_fields
           split: fetched.splits option.splits)

lemma handleSubmit_settled:
  assumes "trim (input st) \<noteq> []" and "\<not> isLoading st"
  shows "\<not> isLoading (handleSubmit fetch st)" and "\<not> abortRef (handleSubmit fetch st)"
proof -
  obtain t r where tb: "try_block fetch (newMessages st) (begin_turn st) = (t, r)"
    by (cases "try_block fetch (newMessages st) (begin_turn st)")
  have f: "isLoading (page.truncate (render (finally_block x))) = False"
    "abortRef (page.truncate (render (finally_block x))) = False" for x :: turn
    by (simp_all add: page.defs finally_block_def)
  from assms tb f show "\<not> isLoading (handleSubmit fetch st)" "\<not> abortRef (handleSubmit fetch st)"
    by (cases r; simp add: handleSubmit_def)+
qed

lemma handleSubmit_console:
  assumes "trim (input st) \<noteq> []" and "\<not> isLoading st"
  shows "console (handleSubmit fetch st) =
         (case raised fetch st of
            None \<Rightarrow> console st
          | Some e \<Rightarrow> if not_cancelled e then console st @ [e] else console st)"
proof -
  obtain t r where tb: "try_block fetch (newMessages st) (begin_turn st) = (t, r)"
    by (cases "try_block fetch (newMessages st) (begin_turn st)")
  from try_block_console [of fetch "newMessages st" st] tb have c: "console t = console st"
    by simp
  have f: "console (page.truncate (render (finally_block x))) = console x" for x :: turn
    by (simp add: page.defs finally_block_def)
  from assms tb c show ?thesis
    by (cases r) (simp_all add: handleSubmit_def raised_def f catch_block_def)
qed

text \<open>
  Claim C8.  The user presses the stop button while a read is pending, after the chunks
  \<open>cs\<close> have been consumed.  \<^verbatim>\<open>handleStop\<close> clears the loading flag at once, the read
  rejects with the AbortError, the \<^verbatim>\<open>catch\<close> block does nothing for it.  The turn ends in
  the very state a clean end of the stream after \<open>cs\<close> would have given.  Its transcript
  holds the messages sent and the draft, whose content is the content string the consumed
  chunks built, with no error marker, and whose thinking is not ahead of their thinking
  string; when no line is half applied the transcript is exactly what the consumed lines
  give, nothing rolled back.  Nothing is logged, the loading flag is cleared and the
  controller released.
\<close>

theorem cancel_keeps_fragments:
  assumes "trim (input st) \<noteq> []" and "\<not> isLoading st"
  shows
    "handleSubmit (\<lambda>b. Fetched True (Some (map Value cs @ Stopped # rest))) st =
       handleSubmit (\<lambda>b. Fetched True (Some (map Value cs))) st \<and>
     butlast (messages (handleSubmit (\<lambda>b. Fetched True (Some (map Value cs @ Stopped # rest))) st)) =
       newMessages st \<and>
     content (last (messages
         (handleSubmit (\<lambda>b. Fetched True (Some (map Value cs @ Stopped # rest))) st))) =
       snd (variables (consume_lines (concat (map data_lines cs)) (begin_turn st))) \<and>
     prefix
       (thinking_text (last (messages
          (handleSubmit (\<lambda>b. Fetched True (Some (map Value cs @ Stopped # rest))) st))))
       (fst (variables (consume_lines (concat (map data_lines cs)) (begin_turn st)))) \<and>
     ((\<forall>l \<in> set (concat (map data_lines cs)). \<not> half_applied l) \<longrightarrow>
        messages (handleSubmit (\<lambda>b. Fetched True (Some (map Value cs @ Stopped # rest))) st) =
          shown (consume_lines (concat (map data_lines cs)) (begin_turn st))) \<and>
     console (handleSubmit (\<lambda>b. Fetched True (Some (map Value cs @ Stopped # rest))) st) =
       console st \<and>
     \<not> isLoading (fst (read_loop (map Value cs @ Stopped # rest) (begin_turn st))) \<and>
     \<not> isLoading (handleSubmit (\<lambda>b. Fetched True (Some (map Value cs @ Stopped # rest))) st) \<and>
     \<not> abortRef (handleSubmit (\<lambda>b. Fetched True (Some (map Value cs @ Stopped # rest))) st)"
proof -
  let ?stopped = "\<lambda>b::jsstring. Fetched True (Some (map Value cs @ Stopped # rest))"
  let ?ended = "\<lambda>b::jsstring. Fetched True (Some (map Value cs))"
  have s: "handleSubmit ?stopped st = handleSubmit ?ended st"
    by (rule handleSubmit_stopped)
  note v = handleSubmit_values [OF assms, of cs]
  have e: "(\<forall>l \<in> set (concat (map data_lines cs)). \<not> half_applied l) \<longrightarrow>
        messages (handleSubmit ?ended st) =
          shown (consume_lines (concat (map data_lines cs)) (begin_turn st))"
    using handleSubmit_values_shown [OF assms, of cs "scheduler st"] by simp
  have c: "console (handleSubmit ?ended st) = console st"
    using handleSubmit_console [OF assms, of ?ended] by (simp add: raised_values)
  have l: "\<not> isLoading (fst (read_loop (map Value cs @ Stopped # rest) (begin_turn st)))"
    by (simp add: read_loop_stopped handleStop_def)
  note f = handleSubmit_settled [OF assms, of ?ended]
  from v e c l f show ?thesis
    unfolding s by (intro conjI) simp_all
qed

theorem cancel_keeps_fragments_witness:
  \<open>trim (input (initial_page\<lparr>input := ascii ''hi'', scheduler := eager\<rparr>)) \<noteq> [] \<and>
   \<not> isLoading (initial_page\<lparr>input := ascii ''hi'', scheduler := eager\<rparr>) \<and>
   filter half_applied (concat (map data_lines
       [ascii ''data: {"thinking":"Let"}\<newline>\<newline>'',
        ascii ''data: {"content":"Hi"}\<newline>\<newline>''])) = [] \<and>
   messages (handleSubmit
     (\<lambda>b. Fetched True (Some [Value (ascii ''data: {"thinking":"Let"}\<newline>\<newline>''),
                              Value (ascii ''data: {"content":"Hi"}\<newline>\<newline>''),
                              Stopped,
                              Value (ascii ''data: {"content":" there"}\<newline>\<newline>'')]))
     (initial_page\<lparr>input := ascii ''hi'', scheduler := eager\<rparr>)) =
   [\<lparr>role = User, content = ascii ''hi'', thinking = None\<rparr>,
    \<lparr>role = Assistant, content = ascii ''Hi'', thinking = Some (ascii ''Let'')\<rparr>] \<and>
   rendered (handleSubmit
     (\<lambda>b. Fetched True (Some [Value (ascii ''data: {"thinking":"Let"}\<newline>\<newline>''),
                              Value (ascii ''data: {"content":"Hi"}\<newline>\<newline>''),
                              Stopped,
                              Value (ascii ''data: {"content":" there"}\<newline>\<newline>'')]))
     (initial_page\<lparr>input := ascii ''hi'', scheduler := eager\<rparr>)) =
   [[\<lparr>role = User, content = ascii ''hi'', thinking = None\<rparr>,
     \<lparr>role = Assistant, content = [], thinking = None\<rparr>],
    [\<lparr>role = User, content = ascii ''hi'', thinking = None\<rparr>,
     \<lparr>role = Assistant, content = [], thinking = Some (ascii ''Let'')\<rparr>],
    [\<lparr>role = User, content = ascii ''hi'', thinking = None\<rparr>,
     \<lparr>role = Assistant, content = ascii ''Hi'', thinking = Some (ascii ''Let'')\<rparr>]] \<and>
   console (handleSubmit
     (\<lambda>b. Fetched True (Some [Value (ascii ''data: {"thinking":"Let"}\<newline>\<newline>''),
                              Value (ascii ''data: {"content":"Hi"}\<newline>\<newline>''),
                              Stopped,
                              Value (ascii ''data: {"content":" there"}\<newline>\<newline>'')]))
     (initial_page\<lparr>input := ascii ''hi'', scheduler := eager\<rparr>)) = [] \<and>
   \<not> isLoading (handleSubmit
     (\<lambda>b. Fetched True (Some [Value (ascii ''data: {"thinking":"Let"}\<newline>\<newline>''),
                              Value (ascii ''data: {"content":"Hi"}\<newline>\<newline>''),
                              Stopped,
                              Value (ascii ''data: {"content":" there"}\<newline>\<newline>'')]))
     (initial_page\<lparr>input := ascii ''hi'', scheduler := eager\<rparr>))\<close>
proof -
  let ?st = \<open>initial_page\<lparr>input := ascii ''hi'', scheduler := eager\<rparr>\<close>
  let ?cs = \<open>[ascii ''data: {"thinking":"Let"}\<newline>\<newline>'',
              ascii ''data: {"content":"Hi"}\<newline>\<newline>'']\<close>
  let ?rest = \<open>[Value (ascii ''data: {"content":" there"}\<newline>\<newline>'')]\<close>
  have a: "trim (input ?st) \<noteq> []" by code_simp
  have b: "\<not> isLoading ?st" by (simp add: initial_page_def)
  have n: "filter half_applied (concat (map data_lines ?cs)) = []" by code_simp
  then have n': "\<forall>l \<in> set (concat (map data_lines ?cs)). \<not> half_applied l"
    by (simp only: filter_empty_conv)
  have c0: "console ?st = []" by (simp add: initial_page_def)
  have r: \<open>rendered (handleSubmit (\<lambda>b. Fetched True (Some (map Value ?cs))) ?st) =
      [[\<lparr>role = User, content = ascii ''hi'', thinking = None\<rparr>,
        \<lparr>role = Assistant, content = [], thinking = None\<rparr>],
       [\<lparr>role = User, content = ascii ''hi'', thinking = None\<rparr>,
        \<lparr>role = Assistant, content = [], thinking = Some (ascii ''Let'')\<rparr>],
       [\<lparr>role = User, content = ascii ''hi'', thinking = None\<rparr>,
        \<lparr>role = Assistant, content = ascii ''Hi'', thinking = Some (ascii ''Let'')\<rparr>]]\<close>
    by code_simp
  have w: \<open>shown (consume_lines (concat (map data_lines ?cs)) (begin_turn ?st)) =
      [\<lparr>role = User, content = ascii ''hi'', thinking = None\<rparr>,
       \<lparr>role = Assistant, content = ascii ''Hi'', thinking = Some (ascii ''Let'')\<rparr>]\<close>
    by code_simp
  from cancel_keeps_fragments [OF a b, of ?cs ?rest] n'
  have "messages (handleSubmit (\<lambda>b. Fetched True (Some (map Value ?cs @ Stopped # ?rest))) ?st) =
        shown (consume_lines (concat (map data_lines ?cs)) (begin_turn ?st))"
    by blast
  note m = this [unfolded w]
  from cancel_keeps_fragments [OF a b, of ?cs ?rest]
  have "handleSubmit (\<lambda>b. Fetched True (Some (map Value ?cs @ Stopped # ?rest))) ?st =
        handleSubmit (\<lambda>b. Fetched True (Some (map Value ?cs))) ?st"
    and "console (handleSubmit (\<lambda>b. Fetched True (Some (map Value ?cs @ Stopped # ?rest))) ?st) =
         console ?st"
    and "\<not> isLoading (handleSubmit (\<lambda>b. Fetched True (Some (map Value ?cs @ Stopped # ?rest))) ?st)"
    by blast+
  with a b n m r c0 show ?thesis by simp
qed

section \<open>The error marker\<close>

lemma read_loop_rejected:
  "read_loop (map Value cs @ Rejected e # rest) t = (fst (read_loop (map Value cs) t), Some e)"
  by (induction cs arbitrary: t) simp_all

lemma raised_cases:
  "(fetch (chat_request (newMessages st)) = Fetch_rejected e \<longrightarrow> raised fetch st = Some e) \<and>
   (fetch (chat_request (newMessages st)) = Fetched ok None \<longrightarrow>
      raised fetch st = Some (Error_instance ''Error'')) \<and>
   (fetch (chat_request (newMessages st)) = Fetched False b \<longrightarrow>
      raised fetch st = Some (Error_instance ''Error'')) \<and>
   (fetch (chat_request (newMessages st)) = Fetched True (Some (map Value cs)) \<longrightarrow>
      raised fetch st = None) \<and>
   (fetch (chat_request (newMessages st)) = Fetched True (Some (map Value cs @ Rejected e # rest)) \<longrightarrow>
      raised fetch st = Some e \<and>
      variables (left_by_try fetch st) =
        variables (consume_lines (concat (map data_lines cs)) (begin_turn st))) \<and>
   (fetch (chat_request (newMessages st)) = Fetched True (Some (map Value cs @ Stopped # rest)) \<longrightarrow>
      raised fetch st = Some AbortError)"
proof -
  let ?t = "(suspended (begin_turn st))\<lparr>content_var := [], thinking_var := []\<rparr>"
  have "variables ?t = variables (begin_turn st)"
    by (simp add: variables_def begin_turn_fields)
  from read_loop_values_variables [OF this, of cs]
  have v: "variables (fst (read_loop (map Value cs) ?t)) =
           variables (consume_lines (concat (map data_lines cs)) (begin_turn st))" .
  show ?thesis
    by (auto simp: raised_def left_by_try_def try_block_def read_loop_values_thrown
                   read_loop_rejected read_loop_stopped v split: option.splits)
qed

text \<open>
  Claim C9, as the code has it.  For a submission that is accepted: if the \<^verbatim>\<open>try\<close>
  block throws an \<^verbatim>\<open>Error\<close> instance whose name is not \<^verbatim>\<open>AbortError\<close>, the final
  transcript is the one React shows for the state the \<^verbatim>\<open>try\<close> block left, with the fixed
  marker appended to the content of its last message, and the error is logged, not
  re-raised; otherwise (nothing thrown, an AbortError, a thrown value that is no
  \<^verbatim>\<open>Error\<close>) the final transcript is the one of the state the \<^verbatim>\<open>try\<close> block left and
  nothing is logged.  That last message is the draft, after the messages sent, and its
  content is the content string of the loop.  In every case the loading flag is cleared and
  the controller released.  The \<^verbatim>\<open>try\<close> block throws when the fetch rejects, when the
  response is not ok or has no body (the handler's own \<^verbatim>\<open>throw new Error\<close>), when a read
  rejects mid-stream (after the chunks before it have been applied), and when the user
  stops the turn; it throws nothing when the stream ends.
\<close>

theorem error_marker_iff_failure:
  assumes "trim (input st) \<noteq> []" and "\<not> isLoading st"
  shows
    "(\<forall>e. raised fetch st = Some e \<and> not_cancelled e \<longrightarrow>
        messages (handleSubmit fetch st) =
          butlast (shown (left_by_try fetch st)) @
          [(last (shown (left_by_try fetch st)))
             \<lparr>content := content (last (shown (left_by_try fetch st))) @ error_marker\<rparr>] \<and>
        console (handleSubmit fetch st) = console st @ [e]) \<and>
     ((\<forall>e. raised fetch st = Some e \<longrightarrow> \<not> not_cancelled e) \<longrightarrow>
        messages (handleSubmit fetch st) = shown (left_by_try fetch st) \<and>
        console (handleSubmit fetch st) = console st) \<and>
     butlast (shown (left_by_try fetch st)) = newMessages st \<and>
     role (last (shown (left_by_try fetch st))) = Assistant \<and>
     content (last (shown (left_by_try fetch st))) = content_var (left_by_try fetch st) \<and>
     \<not> isLoading (handleSubmit fetch st) \<and> \<not> abortRef (handleSubmit fetch st) \<and>
     (fetch (chat_request (newMessages st)) = Fetch_rejected e' \<longrightarrow> raised fetch st = Some e') \<and>
     (fetch (chat_request (newMessages st)) = Fetched ok None \<longrightarrow>
        raised fetch st = Some (Error_instance ''Error'')) \<and>
     (fetch (chat_request (newMessages st)) = Fetched False b \<longrightarrow>
        raised fetch st = Some (Error_instance ''Error'')) \<and>
     (fetch (chat_request (newMessages st)) = Fetched True (Some (map Value cs)) \<longrightarrow>
        raised fetch st = None) \<and>
     (fetch (chat_request (newMessages st)) =
        Fetched True (Some (map Value cs @ Rejected e' # rest)) \<longrightarrow>
        raised fetch st = Some e' \<and>
        variables (left_by_try fetch st) =
          variables (consume_lines (concat (map data_lines cs)) (begin_turn st))) \<and>
     (fetch (chat_request (newMessages st)) =
        Fetched True (Some (map Value cs @ Stopped # rest)) \<longrightarrow>
        raised fetch st = Some AbortError)"
proof -
  note s = tracks_shown [OF tracks_left_by_try [of st fetch]]
  note m = handleSubmit_messages [OF assms, of fetch]
  note c = handleSubmit_console [OF assms, of fetch]
  have 1: "\<forall>e. raised fetch st = Some e \<and> not_cancelled e \<longrightarrow>
        messages (handleSubmit fetch st) =
          butlast (shown (left_by_try fetch st)) @
          [(last (shown (left_by_try fetch st)))
             \<lparr>content := content (last (shown (left_by_try fetch st))) @ error_marker\<rparr>] \<and>
        console (handleSubmit fetch st) = console st @ [e]"
    using m c append_marker_last [OF s(1)] by simp
  have 2: "(\<forall>e. raised fetch st = Some e \<longrightarrow> \<not> not_cancelled e) \<longrightarrow>
        messages (handleSubmit fetch st) = shown (left_by_try fetch st) \<and>
        console (handleSubmit fetch st) = console st"
    using m c by (cases "raised fetch st") simp_all
  note 3 = handleSubmit_settled [OF assms, of fetch]
  from 1 2 3 s(2) s(3) s(4) raised_cases [of fetch st e' ok b cs rest] show ?thesis by blast
qed

theorem error_marker_iff_failure_witness:
  \<open>trim (input (initial_page\<lparr>input := ascii ''hi''\<rparr>)) \<noteq> [] \<and>
   \<not> isLoading (initial_page\<lparr>input := ascii ''hi''\<rparr>) \<and>
   raised (\<lambda>b. Fetched True (Some [Value (ascii ''data: {"content":"Hi"}\<newline>\<newline>''),
                                   Rejected (Error_instance ''TypeError'')]))
     (initial_page\<lparr>input := ascii ''hi''\<rparr>) = Some (Error_instance ''TypeError'') \<and>
   not_cancelled (Error_instance ''TypeError'') \<and>
   messages (handleSubmit
     (\<lambda>b. Fetched True (Some [Value (ascii ''data: {"content":"Hi"}\<newline>\<newline>''),
                              Rejected (Error_instance ''TypeError'')]))
     (initial_page\<lparr>input := ascii ''hi''\<rparr>)) =
   [\<lparr>role = User, content = ascii ''hi'', thinking = None\<rparr>,
    \<lparr>role = Assistant, content = ascii ''Hi'' @ error_marker, thinking = Some []\<rparr>] \<and>
   console (handleSubmit
     (\<lambda>b. Fetched True (Some [Value (ascii ''data: {"content":"Hi"}\<newline>\<newline>''),
                              Rejected (Error_instance ''TypeError'')]))
     (initial_page\<lparr>input := ascii ''hi''\<rparr>)) = [Error_instance ''TypeError''] \<and>
   \<not> isLoading (handleSubmit
     (\<lambda>b. Fetched True (Some [Value (ascii ''data: {"content":"Hi"}\<newline>\<newline>''),
                              Rejected (Error_instance ''TypeError'')]))
     (initial_page\<lparr>input := ascii ''hi''\<rparr>))\<close>
proof -
  let ?st = \<open>initial_page\<lparr>input := ascii ''hi''\<rparr>\<close>
  let ?f = \<open>\<lambda>b::jsstring. Fetched True (Some [Value (ascii ''data: {"content":"Hi"}\<newline>\<newline>''),
                              Rejected (Error_instance ''TypeError'')])\<close>
  have a: "trim (input ?st) \<noteq> []" by code_simp
  have b: "\<not> isLoading ?st" by (simp add: initial_page_def)
  have r: "raised ?f ?st = Some (Error_instance ''TypeError'')" by code_simp
  have n: "not_cancelled (Error_instance ''TypeError'')" by (simp add: not_cancelled_def)
  have m: \<open>messages (handleSubmit ?f ?st) =
   [\<lparr>role = User, content = ascii ''hi'', thinking = None\<rparr>,
    \<lparr>role = Assistant, content = ascii ''Hi'' @ error_marker, thinking = Some []\<rparr>]\<close>
    by code_simp
  have c0: "console ?st = []" by (simp add: initial_page_def)
  from error_marker_iff_failure [OF a b, of ?f] r n c0
  have "console (handleSubmit ?f ?st) = [Error_instance ''TypeError'']"
    and "\<not> isLoading (handleSubmit ?f ?st)"
    by simp_all
  with a b r n m show ?thesis by simp
qed

text \<open>
  The claim as the specification words it fails in its last part: the marker is also
  appended when no read ever took place, here for a response that is not ok.  It is so
  whether React renders as soon as it can or only at the end.
\<close>

theorem error_marker_without_read_counterexample:
  \<open>messages (handleSubmit (\<lambda>b. Fetched False None) (initial_page\<lparr>input := ascii ''hi''\<rparr>)) =
     [\<lparr>role = User, content = ascii ''hi'', thinking = None\<rparr>,
      \<lparr>role = Assistant, content = error_marker, thinking = None\<rparr>] \<and>
   console (handleSubmit (\<lambda>b. Fetched False None) (initial_page\<lparr>input := ascii ''hi''\<rparr>)) =
     [Error_instance ''Error''] \<and>
   messages (handleSubmit (\<lambda>b. Fetched False None)
               (initial_page\<lparr>input := ascii ''hi'', scheduler := eager\<rparr>)) =
     [\<lparr>role = User, content = ascii ''hi'', thinking = None\<rparr>,
      \<lparr>role = Assistant, content = error_marker, thinking = None\<rparr>] \<and>
   rendered (handleSubmit (\<lambda>b. Fetched False None)
               (initial_page\<lparr>input := ascii ''hi'', scheduler := eager\<rparr>)) =
     [[\<lparr>role = User, content = ascii ''hi'', thinking = None\<rparr>,
       \<lparr>role = Assistant, content = [], thinking = None\<rparr>],
      [\<lparr>role = User, content = ascii ''hi'', thinking = None\<rparr>,
       \<lparr>role = Assistant, content = error_marker, thinking = None\<rparr>]] \<and>
   console (handleSubmit (\<lambda>b. Fetched False None)
               (initial_page\<lparr>input := ascii ''hi'', scheduler := eager\<rparr>)) =
     [Error_instance ''Error'']\<close>
  by code_simp

section \<open>Encoding an event and decoding it again\<close>

subsection \<open>A quoted string parses back to the string\<close>

lemma div_small: "(c :: 16 word) div 0x1000 < 16"
  by (simp add: word_less_nat_alt unat_div) (use unsigned_less [of c, where 'a=nat] in simp)

lemma mod_small: "(x :: 16 word) mod 0x10 < 16"
  by (simp add: word_less_nat_alt unat_mod)

lemma hexval_hexdigit: "n < 16 \<Longrightarrow> hexval (hexdigit n) = Some n"
  apply (simp add: hexval_def hexdigit_def)
  apply (simp add: word_less_nat_alt word_le_nat_alt not_less not_le unat_sub unat_word_ariths)
  done

lemma nat_hex_digits:
  fixes n :: nat
  shows "4096 * (n div 4096) + 256 * (n div 256 mod 16) + 16 * (n div 16 mod 16) + n mod 16 = n"
proof -
  have 1: "n = 16 * (n div 16) + n mod 16" by simp
  have "n div 16 div 16 = n div (16 * 16)" by (rule div_mult2_eq [symmetric])
  then have q2: "n div 16 div 16 = n div 256" by simp
  have "n div 256 div 16 = n div (256 * 16)" by (rule div_mult2_eq [symmetric])
  then have q3: "n div 256 div 16 = n div 4096" by simp
  have 2: "n div 16 = 16 * (n div 256) + n div 16 mod 16"
    using mult_div_mod_eq [of 16 "n div 16"] by (simp only: q2)
  have 3: "n div 256 = 16 * (n div 4096) + n div 256 mod 16"
    using mult_div_mod_eq [of 16 "n div 256"] by (simp only: q3)
  from 1 2 3 show ?thesis by linarith
qed

lemma recombine:
  "((c div 0x1000 * 16 + c div 0x100 mod 0x10) * 16 + c div 0x10 mod 0x10) * 16 + c mod 0x10 = (c :: 16 word)"
proof -
  define n where "n = unat c"
  have n: "n < 65536"
    unfolding n_def using unsigned_less [of c, where 'a = nat] by simp
  have h: "4096 * (n div 4096) + 256 * (n div 256 mod 16) + 16 * (n div 16 mod 16) + n mod 16 = n"
    by (rule nat_hex_digits)
  have a: "n div 4096 mod 65536 = n div 4096" "n div 256 mod 65536 = n div 256"
    "n div 16 mod 65536 = n div 16"
    using n by simp_all
  have b: "4096 * (n div 4096) mod 65536 = 4096 * (n div 4096)"
    using n h by simp
  have c: "(4096 * (n div 4096) + 256 * (n div 256 mod 16)) mod 65536 =
           4096 * (n div 4096) + 256 * (n div 256 mod 16)"
    using n h by simp
  have d: "(4096 * (n div 4096) + 256 * (n div 256 mod 16) + n div 16 mod 16 * 16) mod 65536 =
           4096 * (n div 4096) + 256 * (n div 256 mod 16) + n div 16 mod 16 * 16"
    using n h by simp
  have e: "(4096 * (n div 4096) + 256 * (n div 256 mod 16) + n div 16 mod 16 * 16 + n mod 16) mod 65536 = n"
    using n h by simp
  have "unat (((c div 0x1000 * 16 + c div 0x100 mod 0x10) * 16 + c div 0x10 mod 0x10) * 16 + c mod 0x10) = unat c"
    by (simp add: unat_word_ariths unat_div unat_mod n_def [symmetric] a b c d e)
  then show ?thesis by (simp add: word_unat_eq_iff)
qed


lemma hexvals_hex4:
  "hexval (hexdigit (c div 0x1000)) = Some (c div 0x1000) \<and>
   hexval (hexdigit (c div 0x100 mod 0x10)) = Some (c div 0x100 mod 0x10) \<and>
   hexval (hexdigit (c div 0x10 mod 0x10)) = Some (c div 0x10 mod 0x10) \<and>
   hexval (hexdigit (c mod 0x10)) = Some (c mod 0x10)"
  by (simp add: hexval_hexdigit div_small mod_small)

lemma parse_chars_unicode_escape:
  "parse_chars ([0x5C, 0x75] @ hex4 c @ rest) = push c (parse_chars rest)"
  using recombine [of c] by (simp add: hex4_def hexvals_hex4)

lemma parse_chars_quote_unit: "parse_chars (quote_unit c @ rest) = push c (parse_chars rest)"
proof (cases "c = 0x08 \<or> c = 0x09 \<or> c = 0x0A \<or> c = 0x0C \<or> c = 0x0D \<or> c = 0x22 \<or> c = 0x5C")
  case True
  then show ?thesis by (auto simp: quote_unit_def unescape_def)
next
  case named: False
  show ?thesis
  proof (cases "c < 0x20 \<or> is_high_surrogate c \<or> is_low_surrogate c")
    case True
    with named have "quote_unit c = [0x5C, 0x75] @ hex4 c"
      by (simp add: quote_unit_def)
    then show ?thesis
      using parse_chars_unicode_escape [of c rest] by simp
  next
    case False
    with named have "quote_unit c = [c]"
      by (simp add: quote_unit_def)
    with named False show ?thesis by simp
  qed
qed

lemma push_Some: "push c (Some (s, r)) = Some (c # s, r)"
  by (simp add: push_def)

lemma surrogate_plain:
  "is_high_surrogate c \<or> is_low_surrogate c \<Longrightarrow> c \<noteq> 0x22 \<and> c \<noteq> 0x5C \<and> \<not> c < 0x20"
  by (auto simp: is_high_surrogate_def is_low_surrogate_def word_le_nat_alt word_less_nat_alt)

lemma parse_chars_plain:
  "c \<noteq> 0x22 \<Longrightarrow> c \<noteq> 0x5C \<Longrightarrow> \<not> c < 0x20 \<Longrightarrow> parse_chars (c # rest) = push c (parse_chars rest)"
  by simp

lemma parse_chars_quote_chars: "parse_chars (quote_chars s @ 0x22 # r) = Some (s, r)"
proof (induction s rule: quote_chars.induct)
  case 1
  show ?case by simp
next
  case (2 c)
  have "parse_chars (quote_unit c @ 0x22 # r) = push c (parse_chars (0x22 # r))"
    by (rule parse_chars_quote_unit)
  then show ?case by (simp add: push_Some)
next
  case (3 c d cs)
  show ?case
  proof (cases "is_high_surrogate c \<and> is_low_surrogate d")
    case True
    then have q: "quote_chars (c # d # cs) @ 0x22 # r = c # d # (quote_chars cs @ 0x22 # r)"
      by simp
    from True surrogate_plain [of c] surrogate_plain [of d]
    have "c \<noteq> 0x22" "c \<noteq> 0x5C" "\<not> c < 0x20" "d \<noteq> 0x22" "d \<noteq> 0x5C" "\<not> d < 0x20"
      by blast+
    then have "parse_chars (c # d # (quote_chars cs @ 0x22 # r)) =
          push c (push d (parse_chars (quote_chars cs @ 0x22 # r)))"
      by simp
    with "3.IH"(1) [OF True] q show ?thesis
      by (simp only: push_Some)
  next
    case False
    then have q: "quote_chars (c # d # cs) @ 0x22 # r =
                  quote_unit c @ (quote_chars (d # cs) @ 0x22 # r)"
      by auto
    have "parse_chars (quote_unit c @ (quote_chars (d # cs) @ 0x22 # r)) =
          push c (parse_chars (quote_chars (d # cs) @ 0x22 # r))"
      by (rule parse_chars_quote_unit)
    with "3.IH"(2) [OF False] q show ?thesis
      by (simp only: push_Some)
  qed
qed

subsection \<open>An object of quoted strings parses back to the object\<close>

lemma skip_ws_plain: "\<not> is_json_ws c \<Longrightarrow> skip_ws (c # s) = c # s"
  by (simp add: skip_ws_def)

lemma quote_not_ws: "\<not> is_json_ws 0x22" "\<not> is_json_ws 0x3A" "\<not> is_json_ws 0x7B"
  "\<not> is_json_ws 0x7D" "\<not> is_json_ws 0x2C"
  by (simp_all add: is_json_ws_def)

lemma parse_value_quoted:
  "parse_value (0x22 # quote_chars s @ 0x22 # r) = Some (JStr s, r)"
  by (subst parse_value.simps)
     (simp add: skip_ws_plain quote_not_ws parse_chars_quote_chars)

lemma parse_value_quote: "parse_value (quote s @ r) = Some (JStr s, r)"
  by (simp add: quote_def parse_value_quoted)

lemma parse_members_last:
  "parse_members acc (quote k @ 0x3A # quote v @ 0x7D # r) =
   Some (JObj (obj_set acc k (JStr v)), r)"
proof -
  have "parse_members acc (0x22 # quote_chars k @ 0x22 # 0x3A # 0x22 # quote_chars v @ 0x22 # 0x7D # r) =
        Some (JObj (obj_set acc k (JStr v)), r)"
    by (subst parse_members.simps)
       (simp add: skip_ws_plain quote_not_ws parse_chars_quote_chars parse_value_quoted)
  then show ?thesis by (simp add: quote_def)
qed

lemma parse_members_more:
  "parse_members acc (quote k @ 0x3A # quote v @ 0x2C # rest) =
   parse_members (obj_set acc k (JStr v)) rest"
proof -
  have "parse_members acc (0x22 # quote_chars k @ 0x22 # 0x3A # 0x22 # quote_chars v @ 0x22 # 0x2C # rest) =
        parse_members (obj_set acc k (JStr v)) rest"
    by (subst parse_members.simps)
       (simp add: skip_ws_plain quote_not_ws parse_chars_quote_chars parse_value_quoted)
  then show ?thesis by (simp add: quote_def)
qed

lemma parse_value_object:
  "parse_value (0x7B # quote k @ rest) = parse_members [] (quote k @ rest)"
  by (subst parse_value.simps) (simp add: skip_ws_plain quote_not_ws quote_def)

lemma parse_value_empty_object: "parse_value (0x7B # 0x7D # r) = Some (JObj [], r)"
  by (subst parse_value.simps) (simp add: skip_ws_plain quote_not_ws)

subsection \<open>The line of an event\<close>

lemma hexdigit_not_newline: "n < 16 \<Longrightarrow> hexdigit n \<noteq> 0x0A"
  by (simp add: hexdigit_def word_less_nat_alt word_le_nat_alt not_less unat_sub
                unat_word_ariths word_unat_eq_iff)

lemma quote_unit_no_newline: "0x0A \<notin> set (quote_unit c)"
  by (auto simp: quote_unit_def hex4_def hexdigit_not_newline div_small mod_small
                 is_high_surrogate_def is_low_surrogate_def)

lemma quote_chars_no_newline: "0x0A \<notin> set (quote_chars s)"
proof (induction s rule: quote_chars.induct)
  case 1
  show ?case by simp
next
  case (2 c)
  show ?case by (simp add: quote_unit_no_newline)
next
  case (3 c d cs)
  then show ?case
    by (auto simp: quote_unit_no_newline is_high_surrogate_def is_low_surrogate_def)
qed

lemma quote_no_newline: "0x0A \<notin> set (quote s)"
  by (simp add: quote_def quote_chars_no_newline)

lemma keys_not_indices:
  "\<not> is_array_index (ascii ''thinking'')" "\<not> is_array_index (ascii ''content'')"
  by (simp_all add: is_array_index_def ascii_def is_digit_def)

lemma keys_differ: "ascii ''thinking'' \<noteq> ascii ''content''"
  by (simp add: ascii_def)

lemma stringify_pair:
  "stringify (pair_object None None) = [0x7B, 0x7D]"
  "stringify (pair_object (Some a) None) = 0x7B # quote (ascii ''thinking'') @ 0x3A # quote a @ [0x7D]"
  "stringify (pair_object None (Some b)) = 0x7B # quote (ascii ''content'') @ 0x3A # quote b @ [0x7D]"
  "stringify (pair_object (Some a) (Some b)) =
     0x7B # quote (ascii ''thinking'') @ 0x3A # quote a @
     0x2C # quote (ascii ''content'') @ 0x3A # quote b @ [0x7D]"
  by (simp_all add: pair_object_def object_literal_def List.map_filter_simps own_properties_def
                    keys_not_indices)

lemma JSON_parse_pair: "JSON_parse (stringify (pair_object th co)) = Inr (pair_object th co)"
proof -
  have s: "skip_ws [] = []" by (simp add: skip_ws_def)
  have o: "pair_object None None = JObj []"
    "pair_object (Some a) None = JObj [(ascii ''thinking'', JStr a)]"
    "pair_object None (Some b) = JObj [(ascii ''content'', JStr b)]"
    "pair_object (Some a) (Some b) = JObj [(ascii ''thinking'', JStr a), (ascii ''content'', JStr b)]"
    for a b
    by (simp_all add: pair_object_def object_literal_def List.map_filter_simps)
  show ?thesis
  proof (cases th; cases co)
    assume "th = None" "co = None"
    then have "stringify (pair_object th co) = [0x7B, 0x7D]"
      by (simp only: stringify_pair)
    moreover from \<open>th = None\<close> \<open>co = None\<close> have "pair_object th co = JObj []"
      by (simp only: o)
    ultimately show ?thesis
      by (simp add: JSON_parse_def parse_value_empty_object s)
  next
    fix b assume "th = None" "co = Some b"
    then have "stringify (pair_object th co) =
        0x7B # quote (ascii ''content'') @ 0x3A # quote b @ [0x7D]"
      by (simp only: stringify_pair)
    moreover from \<open>th = None\<close> \<open>co = Some b\<close> have "pair_object th co = JObj [(ascii ''content'', JStr b)]"
      by (simp only: o)
    ultimately show ?thesis
      by (simp add: JSON_parse_def parse_value_object parse_members_last s)
  next
    fix a assume "th = Some a" "co = None"
    then have "stringify (pair_object th co) =
        0x7B # quote (ascii ''thinking'') @ 0x3A # quote a @ [0x7D]"
      by (simp only: stringify_pair)
    moreover from \<open>th = Some a\<close> \<open>co = None\<close> have "pair_object th co = JObj [(ascii ''thinking'', JStr a)]"
      by (simp only: o)
    ultimately show ?thesis
      by (simp add: JSON_parse_def parse_value_object parse_members_last s)
  next
    fix a b assume "th = Some a" "co = Some b"
    then have "stringify (pair_object th co) =
        0x7B # quote (ascii ''thinking'') @ 0x3A # quote a @
        0x2C # quote (ascii ''content'') @ 0x3A # quote b @ [0x7D]"
      by (simp only: stringify_pair)
    moreover from \<open>th = Some a\<close> \<open>co = Some b\<close> have "pair_object th co = JObj [(ascii ''thinking'', JStr a), (ascii ''content'', JStr b)]"
      by (simp only: o)
    ultimately show ?thesis
      by (simp add: JSON_parse_def parse_value_object parse_members_more
                    parse_members_last s keys_differ)
  qed
qed

lemma get_prop_pair:
  "get_prop (pair_object th co) (ascii ''thinking'') = Inr (map_option JStr th)"
  "get_prop (pair_object th co) (ascii ''content'') = Inr (map_option JStr co)"
  by (cases th; cases co;
      simp add: pair_object_def object_literal_def List.map_filter_simps get_prop_def keys_differ
                keys_differ [symmetric])+

lemma stringify_pair_braced:
  "\<exists>x. stringify (pair_object th co) = 0x7B # x @ [0x7D] \<and> 0x0A \<notin> set x"
proof (cases th; cases co)
  assume "th = None" "co = None"
  then have "stringify (pair_object th co) = 0x7B # [] @ [0x7D] \<and> 0x0A \<notin> set ([] :: jsstring)"
    by (simp add: stringify_pair)
  then show ?thesis by blast
next
  fix b assume "th = None" "co = Some b"
  then have "stringify (pair_object th co) =
      0x7B # (quote (ascii ''content'') @ 0x3A # quote b) @ [0x7D] \<and>
      0x0A \<notin> set (quote (ascii ''content'') @ 0x3A # quote b)"
    by (simp add: stringify_pair quote_no_newline)
  then show ?thesis by blast
next
  fix a assume "th = Some a" "co = None"
  then have "stringify (pair_object th co) =
      0x7B # (quote (ascii ''thinking'') @ 0x3A # quote a) @ [0x7D] \<and>
      0x0A \<notin> set (quote (ascii ''thinking'') @ 0x3A # quote a)"
    by (simp add: stringify_pair quote_no_newline)
  then show ?thesis by blast
next
  fix a b assume "th = Some a" "co = Some b"
  then have "stringify (pair_object th co) =
      0x7B # (quote (ascii ''thinking'') @ 0x3A # quote a @
              0x2C # quote (ascii ''content'') @ 0x3A # quote b) @ [0x7D] \<and>
      0x0A \<notin> set (quote (ascii ''thinking'') @ 0x3A # quote a @
              0x2C # quote (ascii ''content'') @ 0x3A # quote b)"
    by (simp add: stringify_pair quote_no_newline)
  then show ?thesis by blast
qed

lemma trim_braced: "trim (0x20 # 0x7B # x @ [0x7D]) = 0x7B # x @ [0x7D]"
  by (simp add: trim_def is_js_space_def)

lemma data_lines_sse_data:
  "data_lines (sse_data (map_option JStr th) (map_option JStr co)) =
     [ascii ''data: '' @ stringify (pair_object th co)] \<and>
   trim (slice_from 5 (ascii ''data: '' @ stringify (pair_object th co))) =
     stringify (pair_object th co)"
proof -
  obtain x where j: "stringify (pair_object th co) = 0x7B # x @ [0x7D]" and x: "0x0A \<notin> set x"
    using stringify_pair_braced by blast
  let ?line = "ascii ''data: '' @ stringify (pair_object th co)"
  have n: "0x0A \<notin> set ?line"
    using x by (simp add: j ascii_def)
  have "sse_data (map_option JStr th) (map_option JStr co) = ?line @ 0x0A # ([] @ 0x0A # [])"
    by (simp add: sse_data_def pair_object_def ascii_def)
  then have "data_lines (sse_data (map_option JStr th) (map_option JStr co)) =
             data_lines ?line @ data_lines [] @ data_lines []"
    by (simp only: data_lines_append_newline)
  moreover have "data_lines ?line = [?line]"
    using split_newline_no_newline [OF n]
    by (simp add: data_lines_def startsWith_def ascii_def)
  ultimately have 1: "data_lines (sse_data (map_option JStr th) (map_option JStr co)) = [?line]"
    by (simp add: data_lines_Nil)
  have 2: "trim (slice_from 5 ?line) = stringify (pair_object th co)"
    by (simp add: slice_from_def ascii_def j trim_braced)
  from 1 2 show ?thesis by simp
qed

subsection \<open>The line has no lone surrogate\<close>

lemma to_USVString_well_formed: "well_formed s \<Longrightarrow> to_USVString s = s"
  by (induction s rule: well_formed.induct) (auto split: if_splits)

lemma well_formed_Cons_plain: "\<not> is_surrogate c \<Longrightarrow> well_formed (c # s) = well_formed s"
  by (cases s) (auto simp: is_surrogate_def)

lemma well_formed_append: "well_formed xs \<Longrightarrow> well_formed ys \<Longrightarrow> well_formed (xs @ ys)"
proof (induction xs rule: well_formed.induct)
  case 1
  then show ?case by simp
next
  case (2 c)
  then show ?case by (simp add: well_formed_Cons_plain)
next
  case (3 c d cs)
  then show ?case by (auto split: if_splits)
qed

lemma well_formed_plain: "\<forall>c \<in> set s. \<not> is_surrogate c \<Longrightarrow> well_formed s"
  by (induction s) (simp_all add: well_formed_Cons_plain)

lemma hexdigit_plain: "n < 16 \<Longrightarrow> \<not> is_surrogate (hexdigit n)"
  by (simp add: is_surrogate_def is_high_surrogate_def is_low_surrogate_def hexdigit_def
                word_less_nat_alt word_le_nat_alt not_less not_le unat_sub unat_word_ariths)

lemma quote_unit_plain: "\<forall>x \<in> set (quote_unit c). \<not> is_surrogate x"
proof -
  have p: "\<not> is_surrogate 0x5C" "\<not> is_surrogate 0x75" "\<not> is_surrogate 0x62"
    "\<not> is_surrogate 0x74" "\<not> is_surrogate 0x6E" "\<not> is_surrogate 0x66" "\<not> is_surrogate 0x72"
    "\<not> is_surrogate 0x22"
    by (simp_all add: is_surrogate_def is_high_surrogate_def is_low_surrogate_def)
  show ?thesis
  proof (cases "c < 0x20 \<or> is_high_surrogate c \<or> is_low_surrogate c")
    case True
    then show ?thesis
      by (auto simp: quote_unit_def hex4_def hexdigit_plain div_small mod_small p)
  next
    case False
    then have "\<not> is_surrogate c" by (simp add: is_surrogate_def)
    with False show ?thesis
      by (simp add: quote_unit_def p)
  qed
qed

lemma well_formed_quote_chars: "well_formed (quote_chars s)"
proof (induction s rule: quote_chars.induct)
  case 1
  show ?case by simp
next
  case (2 c)
  show ?case by (simp add: well_formed_plain quote_unit_plain)
next
  case (3 c d cs)
  show ?case
  proof (cases "is_high_surrogate c \<and> is_low_surrogate d")
    case True
    with "3.IH"(1) show ?thesis by simp
  next
    case False
    then have "quote_chars (c # d # cs) = quote_unit c @ quote_chars (d # cs)" by auto
    moreover have "well_formed (quote_unit c)"
      by (simp add: well_formed_plain quote_unit_plain)
    ultimately show ?thesis
      using well_formed_append [OF _ "3.IH"(2) [OF False], of "quote_unit c"] by simp
  qed
qed

lemma well_formed_quote: "well_formed (quote s)"
proof -
  have p: "\<not> is_surrogate 0x22"
    by (simp add: is_surrogate_def is_high_surrogate_def is_low_surrogate_def)
  have "well_formed (quote_chars s @ [0x22])"
    by (rule well_formed_append) (simp_all add: well_formed_quote_chars p)
  then show ?thesis by (simp add: quote_def well_formed_Cons_plain p)
qed

lemma well_formed_sse_data:
  "well_formed (sse_data (map_option JStr th) (map_option JStr co))"
proof -
  have p: "\<not> is_surrogate 0x7B" "\<not> is_surrogate 0x7D" "\<not> is_surrogate 0x3A"
    "\<not> is_surrogate 0x2C" "\<not> is_surrogate 0x0A"
    by (simp_all add: is_surrogate_def is_high_surrogate_def is_low_surrogate_def)
  have t: "well_formed (x @ [0x7D])" if "well_formed x" for x
    using that by (rule well_formed_append) (simp add: p)
  have m: "well_formed (quote k @ 0x3A # quote v @ rest)" if "well_formed rest" for k v rest
  proof -
    have "well_formed (quote v @ rest)"
      using well_formed_quote that by (rule well_formed_append)
    then have "well_formed (0x3A # quote v @ rest)"
      by (simp add: well_formed_Cons_plain p)
    with well_formed_quote show ?thesis by (rule well_formed_append)
  qed
  have e: "well_formed [0x7D]" by (simp add: p)
  have j: "well_formed (stringify (pair_object th co))"
  proof (cases th; cases co)
    assume "th = None" "co = None"
    then show ?thesis by (simp add: stringify_pair p well_formed_Cons_plain)
  next
    fix b assume "th = None" "co = Some b"
    with m [OF e] show ?thesis by (simp add: stringify_pair p well_formed_Cons_plain)
  next
    fix a assume "th = Some a" "co = None"
    with m [OF e] show ?thesis by (simp add: stringify_pair p well_formed_Cons_plain)
  next
    fix a b assume "th = Some a" "co = Some b"
    have "well_formed (0x2C # quote (ascii ''content'') @ 0x3A # quote b @ [0x7D])"
      using m [OF e] by (simp add: well_formed_Cons_plain p)
    from m [OF this] \<open>th = Some a\<close> \<open>co = Some b\<close> show ?thesis
      by (simp add: stringify_pair p well_formed_Cons_plain)
  qed
  have d: "well_formed (ascii ''data: '')" "well_formed (ascii ''\<newline>\<newline>'')"
    by (simp_all add: ascii_def is_surrogate_def is_high_surrogate_def is_low_surrogate_def)
  have "sse_data (map_option JStr th) (map_option JStr co) =
        ascii ''data: '' @ stringify (pair_object th co) @ ascii ''\<newline>\<newline>''"
    by (simp add: sse_data_def pair_object_def)
  with d j show ?thesis by (simp add: well_formed_append)
qed

lemma sse_data_survives_encoding:
  "to_USVString (sse_data (map_option JStr th) (map_option JStr co)) =
   sse_data (map_option JStr th) (map_option JStr co)"
  by (rule to_USVString_well_formed) (rule well_formed_sse_data)

subsection \<open>The round trip\<close>

lemma append_if_truthy_string:
  "append_if_truthy (map_option JStr s) acc = Inr (acc @ text_of s)"
  by (cases s) (simp_all add: append_if_truthy_def text_of_def)

lemma consume_pair_line:
  "consume_line (ascii ''data: '' @ stringify (pair_object th co)) t =
   setMessages Replace_draft
     (t\<lparr>thinking_var := thinking_var t @ text_of th,
        content_var := content_var t @ text_of co\<rparr>)"
proof -
  let ?line = "ascii ''data: '' @ stringify (pair_object th co)"
  have p: "trim (slice_from 5 ?line) = stringify (pair_object th co)"
    using data_lines_sse_data [of th co] by simp
  obtain x where "stringify (pair_object th co) = 0x7B # x @ [0x7D]"
    using stringify_pair_braced by blast
  then have d: "stringify (pair_object th co) \<noteq> ascii ''[DONE]''"
    by (simp add: ascii_def)
  show ?thesis
    by (simp add: consume_line_def p d JSON_parse_pair get_prop_pair append_if_truthy_string)
qed

text \<open>
  Claim C4.  For every pair of optional strings, the line the relay's encoder builds,
  \<^verbatim>\<open>data: <json>\<close> and two newlines with only the present fields in \<^verbatim>\<open><json>\<close>, is
  decoded by the page into one event whose payload parses to the object with exactly the
  original fields: \<^verbatim>\<open>thinking\<close> and \<^verbatim>\<open>content\<close> read from it are the original strings
  where the field was present and \<^verbatim>\<open>undefined\<close> where it was absent.  The page then
  appends exactly these strings to its running thinking and content and passes the
  updater of the draft to \<^verbatim>\<open>setMessages\<close>.  The relay enqueues the line whenever one of the fields is a non-empty string (a
  frame without text is not forwarded).  Strings are arbitrary sequences of code units:
  quotes, backslashes, control characters and lone surrogates are escaped by
  \<^verbatim>\<open>JSON.stringify\<close> and restored by \<^verbatim>\<open>JSON.parse\<close>, and the line has no lone
  surrogate left, so the UTF-8 encoding in between does not change it.
\<close>

theorem sse_round_trip:
  "data_lines (sse_data (map_option JStr th) (map_option JStr co)) =
     [ascii ''data: '' @ stringify (pair_object th co)] \<and>
   map (\<lambda>l. JSON_parse (trim (slice_from 5 l)))
     (data_lines (sse_data (map_option JStr th) (map_option JStr co))) =
     [Inr (pair_object th co)] \<and>
   get_prop (pair_object th co) (ascii ''thinking'') = Inr (map_option JStr th) \<and>
   get_prop (pair_object th co) (ascii ''content'') = Inr (map_option JStr co) \<and>
   consume_lines (data_lines (sse_data (map_option JStr th) (map_option JStr co))) t =
     setMessages Replace_draft
       (t\<lparr>thinking_var := thinking_var t @ text_of th,
          content_var := content_var t @ text_of co\<rparr>) \<and>
   enqueue_data (map_option JStr th) (map_option JStr co) =
     (if text_of th \<noteq> [] \<or> text_of co \<noteq> []
      then [sse_data (map_option JStr th) (map_option JStr co)] else []) \<and>
   to_USVString (sse_data (map_option JStr th) (map_option JStr co)) =
     sse_data (map_option JStr th) (map_option JStr co)"
proof (intro conjI)
  show "to_USVString (sse_data (map_option JStr th) (map_option JStr co)) =
     sse_data (map_option JStr th) (map_option JStr co)"
    by (rule sse_data_survives_encoding)
  show "data_lines (sse_data (map_option JStr th) (map_option JStr co)) =
     [ascii ''data: '' @ stringify (pair_object th co)]"
    using data_lines_sse_data [of th co] by simp
  show "map (\<lambda>l. JSON_parse (trim (slice_from 5 l)))
     (data_lines (sse_data (map_option JStr th) (map_option JStr co))) =
     [Inr (pair_object th co)]"
    using data_lines_sse_data [of th co] by (simp add: JSON_parse_pair)
  show "get_prop (pair_object th co) (ascii ''thinking'') = Inr (map_option JStr th)"
    by (rule get_prop_pair)
  show "get_prop (pair_object th co) (ascii ''content'') = Inr (map_option JStr co)"
    by (rule get_prop_pair)
  show "consume_lines (data_lines (sse_data (map_option JStr th) (map_option JStr co))) t =
     setMessages Replace_draft
       (t\<lparr>thinking_var := thinking_var t @ text_of th,
          content_var := content_var t @ text_of co\<rparr>)"
    using data_lines_sse_data [of th co] by (simp add: consume_pair_line)
  show "enqueue_data (map_option JStr th) (map_option JStr co) =
     (if text_of th \<noteq> [] \<or> text_of co \<noteq> []
      then [sse_data (map_option JStr th) (map_option JStr co)] else [])"
    by (cases th; cases co) (simp_all add: enqueue_data_def truthy_opt_def text_of_def)
qed

theorem sse_round_trip_witness:
  \<open>sse_data (Some (JStr (ascii ''a"'' @ [0x5C, 0x0A, 0x01, 0xD800, 0x4E2D]))) None =
     ascii ''data: {"thinking":"a'' @ [0x5C] @ ascii ''"'' @ [0x5C, 0x5C] @ [0x5C] @ ascii ''n'' @
     [0x5C] @ ascii ''u0001'' @ [0x5C] @ ascii ''ud800'' @ [0x4E2D] @ ascii ''"}\<newline>\<newline>'' \<and>
   map (\<lambda>l. JSON_parse (trim (slice_from 5 l)))
     (data_lines (sse_data (Some (JStr (ascii ''a"'' @ [0x5C, 0x0A, 0x01, 0xD800, 0x4E2D]))) None)) =
     [Inr (JObj [(ascii ''thinking'', JStr (ascii ''a"'' @ [0x5C, 0x0A, 0x01, 0xD800, 0x4E2D]))])] \<and>
   get_prop (JObj [(ascii ''thinking'', JStr (ascii ''a"'' @ [0x5C, 0x0A, 0x01, 0xD800, 0x4E2D]))])
     (ascii ''content'') = Inr None\<close>
proof -
  let ?s = \<open>ascii ''a"'' @ [0x5C, 0x0A, 0x01, 0xD800, 0x4E2D]\<close>
  have e: \<open>sse_data (Some (JStr ?s)) None =
     ascii ''data: {"thinking":"a'' @ [0x5C] @ ascii ''"'' @ [0x5C, 0x5C] @ [0x5C] @ ascii ''n'' @
     [0x5C] @ ascii ''u0001'' @ [0x5C] @ ascii ''ud800'' @ [0x4E2D] @ ascii ''"}\<newline>\<newline>''\<close>
    by code_simp
  have o: "pair_object (Some ?s) None = JObj [(ascii ''thinking'', JStr ?s)]"
    by code_simp
  from sse_round_trip [of "Some ?s" None]
  have "map (\<lambda>l. JSON_parse (trim (slice_from 5 l)))
          (data_lines (sse_data (map_option JStr (Some ?s)) (map_option JStr None))) =
        [Inr (pair_object (Some ?s) None)]"
    and "get_prop (pair_object (Some ?s) None) (ascii ''content'') = Inr (map_option JStr None)"
    by blast+
  then have m: "map (\<lambda>l. JSON_parse (trim (slice_from 5 l)))
          (data_lines (sse_data (Some (JStr ?s)) None)) = [Inr (JObj [(ascii ''thinking'', JStr ?s)])]"
    and g: "get_prop (JObj [(ascii ''thinking'', JStr ?s)]) (ascii ''content'') = Inr None"
    unfolding o option.map by this+
  show ?thesis
    by (intro conjI) (rule e, rule m, rule g)
qed

section \<open>Malformed lines and payloads\<close>

lemma start_prefix_cong:
  "start rs = start rs' \<Longrightarrow> start (earlier @ rs) = start (earlier @ rs')"
proof (induction earlier)
  case Nil
  then show ?case by simp
next
  case (Cons r earlier)
  then show ?case by (cases r) simp_all
qed

lemma split_newline_line_inside:
  assumes "0x0A \<notin> set bad" and "a = [] \<or> last a = 0x0A"
  shows "\<exists>xs. split_newline (a @ bad @ 0x0A # b) = xs @ bad # split_newline b \<and>
              split_newline (a @ b) = xs @ split_newline b"
proof (cases "a = []")
  case True
  have "split_newline (bad @ 0x0A # b) = [] @ bad # split_newline b"
    by (simp add: split_newline_append_newline split_newline_no_newline [OF assms(1)])
  with True show ?thesis by auto
next
  case False
  with assms(2) obtain a' where a: "a = a' @ [0x0A]"
    by (metis append_butlast_last_id)
  have 1: "split_newline (a @ bad @ 0x0A # b) = split_newline a' @ bad # split_newline b"
    by (simp add: a split_newline_append_newline split_newline_no_newline [OF assms(1)])
  have 2: "split_newline (a @ b) = split_newline a' @ split_newline b"
    by (simp add: a split_newline_append_newline)
  from 1 2 show ?thesis by blast
qed

lemma relay_line_malformed: "JSON_parse bad = Inl e \<Longrightarrow> relay_line bad = []"
  by (simp add: relay_line_def)

lemma consume_line_malformed:
  "JSON_parse (trim (slice_from 5 bad)) = Inl e \<Longrightarrow> consume_line bad t = t"
  by (simp add: consume_line_def Let_def)

text \<open>
  A read that holds a malformed line and then an event as the relay writes it: the
  transcript at the end of the turn has the event's strings in its draft.
\<close>

lemma malformed_then_event:
  assumes "trim (input st) \<noteq> []" and "\<not> isLoading st"
    and "0x0A \<notin> set bad" and "JSON_parse (trim (slice_from 5 bad)) = Inl e"
  shows "messages (handleSubmit
           (\<lambda>b. Fetched True
              (Some [Value (bad @ 0x0A # sse_data (map_option JStr th) (map_option JStr co))])) st) =
         newMessages st @ [\<lparr>role = Assistant, content = text_of co, thinking = Some (text_of th)\<rparr>]"
proof -
  let ?v = "bad @ 0x0A # sse_data (map_option JStr th) (map_option JStr co)"
  let ?f = "\<lambda>b::jsstring. Fetched True (Some (map Value [?v]))"
  let ?good = "ascii ''data: '' @ stringify (pair_object th co)"
  let ?x = "suspended ((suspended (begin_turn st))\<lparr>content_var := [], thinking_var := []\<rparr>)"
  have e: "(suspended (begin_turn st))\<lparr>content_var := [], thinking_var := []\<rparr> =
           suspended (begin_turn st)"
    by (simp add: begin_turn_fields)
  have x: "tracks (length (rendered st)) (newMessages st) ?x"
    unfolding e by (intro tracks_suspended tracks_begin_turn)
  have vx: "thinking_var ?x = []" "content_var ?x = []"
    by (simp_all add: begin_turn_fields)
  have b: "consume_lines (data_lines bad) t = t" for t
    using consume_line_malformed [OF assms(4)]
    by (simp add: data_lines_def split_newline_no_newline [OF assms(3)])
  have "data_lines ?v = data_lines bad @ [?good]"
    using data_lines_sse_data [of th co] by (simp add: data_lines_append_newline)
  then have c: "consume_lines (data_lines ?v) ?x =
      setMessages Replace_draft
        (?x\<lparr>thinking_var := thinking_var ?x @ text_of th,
             content_var := content_var ?x @ text_of co\<rparr>)"
    by (simp only: consume_lines_append b consume_lines.simps consume_pair_line)
  have "shown (left_by_try ?f st) = shown (consume_lines (data_lines ?v) ?x)"
    by (simp add: left_by_try_def try_block_def shown_suspended)
  also have "\<dots> = newMessages st @
      [\<lparr>role = Assistant, content = content_var ?x @ text_of co,
        thinking = Some (thinking_var ?x @ text_of th)\<rparr>]"
    unfolding c by (rule shown_published [OF x])
  finally have s: "shown (left_by_try ?f st) =
      newMessages st @ [\<lparr>role = Assistant, content = text_of co, thinking = Some (text_of th)\<rparr>]"
    by (simp only: vx append_Nil)
  have r: "raised ?f st = None" by (rule raised_values)
  have "messages (handleSubmit ?f st) = shown (left_by_try ?f st)"
    using handleSubmit_messages [OF assms(1,2), of ?f] unfolding r by simp
  with s show ?thesis by simp
qed

text \<open>
  Claim C6.  A malformed unit is dropped and nothing else happens.  In the relay: a line of
  a chunk that \<^verbatim>\<open>JSON.parse\<close> rejects yields no event, and the relayed stream is the one
  of the same input without that line, so the lines around it are emitted in their order.
  In the page: a \<^verbatim>\<open>data:\<close> line whose payload \<^verbatim>\<open>JSON.parse\<close> rejects changes
  nothing, the loop returns the same state and the same outcome (no error raised, no
  early exit) as for the same stream without that line, and the turn ends in the same
  page.  The valid unit after it is applied: when the event the relay writes for a pair of
  strings follows the malformed line, the final transcript holds the messages sent and a
  draft with exactly these strings, whenever React renders.
\<close>

theorem malformed_unit_is_dropped:
  assumes "0x0A \<notin> set bad" and "a = [] \<or> last a = 0x0A"
  shows
    "(JSON_parse bad = Inl e \<longrightarrow>
        start (earlier @ Chunk (a @ bad @ 0x0A # b) # later) =
        start (earlier @ Chunk (a @ b) # later)) \<and>
     (JSON_parse (trim (slice_from 5 bad)) = Inl e \<longrightarrow>
        read_loop (reads @ Value (a @ bad @ 0x0A # b) # rest) t =
        read_loop (reads @ Value (a @ b) # rest) t \<and>
        handleSubmit (\<lambda>q. Fetched True (Some (reads @ Value (a @ bad @ 0x0A # b) # rest))) st =
        handleSubmit (\<lambda>q. Fetched True (Some (reads @ Value (a @ b) # rest))) st \<and>
        (trim (input st) \<noteq> [] \<and> \<not> isLoading st \<longrightarrow>
           messages (handleSubmit
             (\<lambda>b. Fetched True
                (Some [Value (bad @ 0x0A # sse_data (map_option JStr th) (map_option JStr co))])) st) =
           newMessages st @
           [\<lparr>role = Assistant, content = text_of co, thinking = Some (text_of th)\<rparr>]))"
proof (intro conjI impI)
  from split_newline_line_inside [OF assms, of b] obtain xs
    where 1: "split_newline (a @ bad @ 0x0A # b) = xs @ bad # split_newline b"
      and 2: "split_newline (a @ b) = xs @ split_newline b"
    by blast
  {
    assume "JSON_parse bad = Inl e"
    then have "relay_line bad = []" by (rule relay_line_malformed)
    then have "start (Chunk (a @ bad @ 0x0A # b) # later) = start (Chunk (a @ b) # later)"
      by (simp add: 1 2 relay_lines_append)
    then show "start (earlier @ Chunk (a @ bad @ 0x0A # b) # later) =
        start (earlier @ Chunk (a @ b) # later)"
      by (rule start_prefix_cong)
  }
  {
    assume p: "JSON_parse (trim (slice_from 5 bad)) = Inl e"
    then have c: "consume_line bad t' = t'" for t'
      by (rule consume_line_malformed)
    have "read_loop (Value (a @ bad @ 0x0A # b) # rest) t' =
          read_loop (Value (a @ b) # rest) t'" for t'
      by (simp add: data_lines_def 1 2 consume_lines_append c)
    then have l: "read_loop (reads @ Value (a @ bad @ 0x0A # b) # rest) t' =
        read_loop (reads @ Value (a @ b) # rest) t'" for t'
      by (rule read_loop_prefix_cong)
    from l show "read_loop (reads @ Value (a @ bad @ 0x0A # b) # rest) t =
        read_loop (reads @ Value (a @ b) # rest) t" .
    show "handleSubmit (\<lambda>q. Fetched True (Some (reads @ Value (a @ bad @ 0x0A # b) # rest))) st =
        handleSubmit (\<lambda>q. Fetched True (Some (reads @ Value (a @ b) # rest))) st"
      by (simp add: handleSubmit_def try_block_def l)
    assume "trim (input st) \<noteq> [] \<and> \<not> isLoading st"
    then have a: "trim (input st) \<noteq> []" "\<not> isLoading st" by simp_all
    from malformed_then_event [OF a assms(1) p]
    show "messages (handleSubmit
             (\<lambda>b. Fetched True
                (Some [Value (bad @ 0x0A # sse_data (map_option JStr th) (map_option JStr co))])) st) =
           newMessages st @
           [\<lparr>role = Assistant, content = text_of co, thinking = Some (text_of th)\<rparr>]" .
  }
qed

theorem malformed_unit_is_dropped_witness:
  \<open>0x0A \<notin> set (ascii ''{"message":{"con'') \<and>
   last (ascii ''{"message":{"content":"A"}}\<newline>'') = 0x0A \<and>
   JSON_parse (ascii ''{"message":{"con'') = Inl SyntaxError \<and>
   start [Chunk (ascii ''{"message":{"content":"A"}}\<newline>'' @ ascii ''{"message":{"con'' @
                 0x0A # ascii ''{"message":{"content":"B"}}\<newline>'')] =
   start [Chunk (ascii ''{"message":{"content":"A"}}\<newline>'' @
                 ascii ''{"message":{"content":"B"}}\<newline>'')] \<and>
   start [Chunk (ascii ''{"message":{"content":"A"}}\<newline>'' @ ascii ''{"message":{"con'' @
                 0x0A # ascii ''{"message":{"content":"B"}}\<newline>'')] =
   \<lparr>enqueued = [ascii ''data: {"content":"A"}\<newline>\<newline>'',
                ascii ''data: {"content":"B"}\<newline>\<newline>''],
    failed = False\<rparr> \<and>
   JSON_parse (trim (slice_from 5 (ascii ''data: {"con''))) = Inl SyntaxError \<and>
   handleSubmit
     (\<lambda>q. Fetched True
        (Some [Value (ascii ''data: {"content":"A"}\<newline>\<newline>'' @ ascii ''data: {"con'' @
                      0x0A # ascii ''\<newline>data: {"content":"B"}\<newline>\<newline>'')]))
     (initial_page\<lparr>input := ascii ''hi'', scheduler := eager\<rparr>) =
   handleSubmit
     (\<lambda>q. Fetched True
        (Some [Value (ascii ''data: {"content":"A"}\<newline>\<newline>'' @
                      ascii ''\<newline>data: {"content":"B"}\<newline>\<newline>'')]))
     (initial_page\<lparr>input := ascii ''hi'', scheduler := eager\<rparr>) \<and>
   messages (handleSubmit
     (\<lambda>q. Fetched True
        (Some [Value (ascii ''data: {"content":"A"}\<newline>\<newline>'' @ ascii ''data: {"con'' @
                      0x0A # ascii ''\<newline>data: {"content":"B"}\<newline>\<newline>'')]))
     (initial_page\<lparr>input := ascii ''hi'', scheduler := eager\<rparr>)) =
   [\<lparr>role = User, content = ascii ''hi'', thinking = None\<rparr>,
    \<lparr>role = Assistant, content = ascii ''AB'', thinking = Some []\<rparr>] \<and>
   messages (handleSubmit
     (\<lambda>q. Fetched True
        (Some [Value (ascii ''data: {"con'' @ 0x0A # sse_data None (Some (JStr (ascii ''B''))))]))
     (initial_page\<lparr>input := ascii ''hi'', scheduler := eager\<rparr>)) =
   [\<lparr>role = User, content = ascii ''hi'', thinking = None\<rparr>,
    \<lparr>role = Assistant, content = ascii ''B'', thinking = Some []\<rparr>]\<close>
proof -
  let ?st = \<open>initial_page\<lparr>input := ascii ''hi'', scheduler := eager\<rparr>\<close>
  have n: \<open>0x0A \<notin> set (ascii ''{"message":{"con'')\<close>
    by (simp add: ascii_def)
  have l: \<open>last (ascii ''{"message":{"content":"A"}}\<newline>'') = 0x0A\<close>
    by (simp add: ascii_def)
  have p: \<open>JSON_parse (ascii ''{"message":{"con'') = Inl SyntaxError\<close>
    by code_simp
  have v: \<open>start [Chunk (ascii ''{"message":{"content":"A"}}\<newline>'' @ ascii ''{"message":{"con'' @
                 0x0A # ascii ''{"message":{"content":"B"}}\<newline>'')] =
   \<lparr>enqueued = [ascii ''data: {"content":"A"}\<newline>\<newline>'',
                ascii ''data: {"content":"B"}\<newline>\<newline>''],
    failed = False\<rparr>\<close>
    by code_simp
  from malformed_unit_is_dropped [OF n, where a = \<open>ascii ''{"message":{"content":"A"}}\<newline>''\<close>
      and e = SyntaxError and earlier = "[]" and b = \<open>ascii ''{"message":{"content":"B"}}\<newline>''\<close>
      and later = "[]"] l p
  have s: \<open>start [Chunk (ascii ''{"message":{"content":"A"}}\<newline>'' @ ascii ''{"message":{"con'' @
                 0x0A # ascii ''{"message":{"content":"B"}}\<newline>'')] =
   start [Chunk (ascii ''{"message":{"content":"A"}}\<newline>'' @
                 ascii ''{"message":{"content":"B"}}\<newline>'')]\<close>
    by (simp del: start.simps)
  have n': \<open>0x0A \<notin> set (ascii ''data: {"con'')\<close>
    by (simp add: ascii_def)
  have l': \<open>last (ascii ''data: {"content":"A"}\<newline>\<newline>'') = 0x0A\<close>
    by (simp add: ascii_def)
  have p': \<open>JSON_parse (trim (slice_from 5 (ascii ''data: {"con''))) = Inl SyntaxError\<close>
    by code_simp
  have a: "trim (input ?st) \<noteq> []" by code_simp
  have i: "\<not> isLoading ?st" by (simp add: initial_page_def)
  have u: "newMessages ?st = [\<lparr>role = User, content = ascii ''hi'', thinking = None\<rparr>]"
    by code_simp
  have m: \<open>messages (handleSubmit
     (\<lambda>q. Fetched True
        (Some [Value (ascii ''data: {"content":"A"}\<newline>\<newline>'' @ ascii ''data: {"con'' @
                      0x0A # ascii ''\<newline>data: {"content":"B"}\<newline>\<newline>'')])) ?st) =
   [\<lparr>role = User, content = ascii ''hi'', thinking = None\<rparr>,
    \<lparr>role = Assistant, content = ascii ''AB'', thinking = Some []\<rparr>]\<close>
    by code_simp
  note page = malformed_unit_is_dropped [OF n', where a = \<open>ascii ''data: {"content":"A"}\<newline>\<newline>''\<close>
      and e = SyntaxError and b = \<open>ascii ''\<newline>data: {"content":"B"}\<newline>\<newline>''\<close>
      and reads = "[]" and rest = "[]" and st = ?st and th = None and co = \<open>Some (ascii ''B'')\<close>]
  from page l' p'
  have c: \<open>handleSubmit
     (\<lambda>q. Fetched True
        (Some [Value (ascii ''data: {"content":"A"}\<newline>\<newline>'' @ ascii ''data: {"con'' @
                      0x0A # ascii ''\<newline>data: {"content":"B"}\<newline>\<newline>'')])) ?st =
   handleSubmit
     (\<lambda>q. Fetched True
        (Some [Value (ascii ''data: {"content":"A"}\<newline>\<newline>'' @
                      ascii ''\<newline>data: {"content":"B"}\<newline>\<newline>'')])) ?st\<close>
    by simp
  from page l' p' a i
  have \<open>messages (handleSubmit
     (\<lambda>q. Fetched True
        (Some [Value (ascii ''data: {"con'' @ 0x0A #
                        sse_data (map_option JStr None) (map_option JStr (Some (ascii ''B''))))])) ?st) =
     newMessages ?st @
     [\<lparr>role = Assistant, content = text_of (Some (ascii ''B'')), thinking = Some (text_of None)\<rparr>]\<close>
    by blast
  then have g: \<open>messages (handleSubmit
     (\<lambda>q. Fetched True
        (Some [Value (ascii ''data: {"con'' @ 0x0A # sse_data None (Some (JStr (ascii ''B''))))])) ?st) =
   [\<lparr>role = User, content = ascii ''hi'', thinking = None\<rparr>,
    \<lparr>role = Assistant, content = ascii ''B'', thinking = Some []\<rparr>]\<close>
    by (simp add: u text_of_def)
  show ?thesis
    by (intro conjI) (rule n, rule l, rule p, rule s, rule v, rule p', rule c, rule m, rule g)
qed


end
